theory Spec2Isabelle
  imports Main
begin

section \<open>Relay sockets and the event loop\<close>

text \<open>
  The connection manager (\<^verbatim>\<open>trystero-client\<close>: \<^verbatim>\<open>waitForRelayOpen\<close>,
  \<^verbatim>\<open>joinRoomWithFallback\<close>) talks to objects it does not own: strategy modules, rooms
  and relay WebSockets. Objects are modelled by their identity (a number); what the
  environment does with them is an explicit input of every function.
\<close>

type_synonym sock = nat
type_synonym room = nat

text \<open>
  A callback passed to \<open>onReconnect\<close>: its identity and what a call of it does, return or
  throw. Whatever else a handler does is its owner's business and is not modelled.
\<close>

datatype handler = Returns nat | Throws nat

fun returns :: "handler \<Rightarrow> bool" where
  "returns (Returns h) = True"
| "returns (Throws h) = False"

text \<open>\<^verbatim>\<open>WebSocket.readyState\<close> and the three event names the module listens to.\<close>

datatype readyState = CONNECTING | OPEN | CLOSING | CLOSED

datatype evtype = EvOpen | EvClose | EvError

text \<open>
  What the event loop delivers while a promise is pending: a socket's \<open>readyState\<close>
  changes, or an event is dispatched to a socket's listeners. Each action carries the
  time (in ms since the call) at which it is delivered. A browser that opens a socket
  at time \<open>t\<close> delivers \<open>(t, SetReady ws OPEN)\<close> and then \<open>(t, Fire ws EvOpen)\<close>.
\<close>

datatype action = SetReady sock readyState | Fire sock evtype

type_synonym schedule = "(nat \<times> action) list"

text \<open>The ready states of all sockets, latest write first; a socket never written is
  still connecting.\<close>

type_synonym readyMap = "(sock \<times> readyState) list"

definition readyStateOf :: "readyMap \<Rightarrow> sock \<Rightarrow> readyState" where
  "readyStateOf rs ws = (case map_of rs ws of None \<Rightarrow> CONNECTING | Some r \<Rightarrow> r)"

section \<open>waitForRelayOpen\<close>

text \<open>
  The closure state of one call of \<^verbatim>\<open>waitForRelayOpen\<close>: the flag \<open>resolved\<close>, whether
  the timeout is still scheduled (\<open>timer\<close>), the sockets that carry the \<open>onOpen\<close>
  listener, the sockets' ready states, and the value and time of the \<open>resolve\<close> call.
\<close>

record waiter =
  resolved :: bool
  timer :: bool
  onOpenOn :: "sock list"
  sockState :: readyMap
  answer :: bool
  answeredAt :: nat

text \<open>\<^verbatim>\<open>list.some((ws) => ws.readyState === WebSocket.OPEN)\<close>\<close>

definition someOpen :: "sock list \<Rightarrow> readyMap \<Rightarrow> bool" where
  "someOpen list rs = list_ex (\<lambda>ws. readyStateOf rs ws = OPEN) list"

text \<open>\<^verbatim>\<open>cleanup\<close>: remove \<open>onOpen\<close> from every socket of the list.\<close>

definition cleanup :: "sock list \<Rightarrow> waiter \<Rightarrow> waiter" where
  "cleanup list w = w\<lparr>onOpenOn := filter (\<lambda>ws. ws \<notin> set list) (onOpenOn w)\<rparr>"

text \<open>\<^verbatim>\<open>onOpen\<close>, run at time \<open>now\<close>: resolve true when not yet resolved and some socket
  is open; \<^verbatim>\<open>clearTimeout(timer)\<close> unschedules the timeout.\<close>

definition onOpen :: "sock list \<Rightarrow> nat \<Rightarrow> waiter \<Rightarrow> waiter" where
  "onOpen list now w =
     (if \<not> resolved w \<and> someOpen list (sockState w)
      then cleanup list (w\<lparr>resolved := True, timer := False, answer := True, answeredAt := now\<rparr>)
      else w)"

text \<open>The \<^verbatim>\<open>setTimeout\<close> callback, run at time \<open>now\<close>: resolve to whether some socket is
  open at this instant.\<close>

definition onTimer :: "sock list \<Rightarrow> nat \<Rightarrow> waiter \<Rightarrow> waiter" where
  "onTimer list now w =
     (if \<not> resolved w
      then cleanup list (w\<lparr>resolved := True, timer := False,
                               answer := someOpen list (sockState w), answeredAt := now\<rparr>)
      else w\<lparr>timer := False\<rparr>)"

text \<open>
  The final \<^verbatim>\<open>list.forEach\<close> of the promise executor, at time 0: a socket that is
  already open runs \<open>onOpen\<close> at once, any other gets the listener (the DOM ignores a
  second registration of the same callback). The first argument is the whole list,
  the second what is left to visit.
\<close>

fun attach :: "sock list \<Rightarrow> sock list \<Rightarrow> waiter \<Rightarrow> waiter" where
  "attach list [] w = w"
| "attach list (ws # rest) w =
     attach list rest
       (if readyStateOf (sockState w) ws = OPEN then onOpen list 0 w
        else if ws \<in> set (onOpenOn w) then w
        else w\<lparr>onOpenOn := onOpenOn w @ [ws]\<rparr>)"

text \<open>
  One action of the event loop at time \<open>now\<close>. The listener was added with
  \<^verbatim>\<open>{ once: true }\<close>, so the dispatch removes it before it runs. Close and error events
  have no listener of this call.
\<close>

fun deliver :: "sock list \<Rightarrow> nat \<Rightarrow> action \<Rightarrow> waiter \<Rightarrow> waiter" where
  "deliver list now (SetReady ws r) w = w\<lparr>sockState := (ws, r) # sockState w\<rparr>"
| "deliver list now (Fire ws ev) w =
     (if ev = EvOpen \<and> ws \<in> set (onOpenOn w)
      then onOpen list now (w\<lparr>onOpenOn := removeAll ws (onOpenOn w)\<rparr>)
      else w)"

text \<open>
  The event loop with the timeout scheduled at \<open>timeout\<close>: actions are delivered in
  order; while the timer is scheduled, its callback runs before the first action that is
  later than \<open>timeout\<close>, and at the latest when the schedule ends. An event loop runs one
  callback at a time, so the stamps also say on which side of the timer's callback an
  action falls: an action stamped \<open>timeout\<close> is one that is delivered just before it.
\<close>

fun run :: "sock list \<Rightarrow> nat \<Rightarrow> schedule \<Rightarrow> waiter \<Rightarrow> waiter" where
  "run list timeout [] w = (if timer w then onTimer list timeout w else w)"
| "run list timeout ((t, a) # rest) w =
     (if timer w \<and> timeout < t
      then run list timeout rest (deliver list t a (onTimer list timeout w))
      else run list timeout rest (deliver list t a w))"

text \<open>
  \<^verbatim>\<open>waitForRelayOpen(sockets, timeout)\<close>. \<open>sockets\<close> is \<open>None\<close> for \<^verbatim>\<open>undefined\<close>, else
  \<^verbatim>\<open>Object.values\<close> of the map; \<open>rs\<close> are the ready states at the call and \<open>sched\<close> is what
  the event loop delivers afterwards. The result is the value the promise resolves to
  and the time at which it does.
\<close>

definition waitForRelayOpen ::
  "sock list option \<Rightarrow> nat \<Rightarrow> readyMap \<Rightarrow> schedule \<Rightarrow> bool \<times> nat" where
  "waitForRelayOpen sockets timeout rs sched =
     (let list = (case sockets of None \<Rightarrow> [] | Some vs \<Rightarrow> vs) in
      if length list = 0 then (True, 0)
      else
        (let w = run list timeout sched
                   (attach list list
                      \<lparr>resolved = False, timer = True, onOpenOn = [], sockState = rs,
                       answer = False, answeredAt = 0\<rparr>)
         in (answer w, answeredAt w)))"

text \<open>Vocabulary for statements about a schedule: the part of it that is delivered
  before the timer's callback, and the ready states at that instant.\<close>

fun applyReady :: "schedule \<Rightarrow> readyMap \<Rightarrow> readyMap" where
  "applyReady [] rs = rs"
| "applyReady ((t, SetReady ws r) # rest) rs = applyReady rest ((ws, r) # rs)"
| "applyReady ((t, Fire ws ev) # rest) rs = applyReady rest rs"

definition beforeTimer :: "nat \<Rightarrow> schedule \<Rightarrow> schedule" where
  "beforeTimer timeout sched = takeWhile (\<lambda>(t, a). t \<le> timeout) sched"

definition readyAt :: "nat \<Rightarrow> schedule \<Rightarrow> readyMap \<Rightarrow> readyMap" where
  "readyAt timeout sched rs = applyReady (beforeTimer timeout sched) rs"

text \<open>An action that neither opens a listed socket nor dispatches the open event of
  \<open>ws\<close>; an action that is not an open event on a listed socket.\<close>

fun quiet :: "sock list \<Rightarrow> sock \<Rightarrow> action \<Rightarrow> bool" where
  "quiet list ws (SetReady x r) = (\<not> (x \<in> set list \<and> r = OPEN))"
| "quiet list ws (Fire x ev) = (\<not> (x = ws \<and> ev = EvOpen))"

fun noOpenEvent :: "sock list \<Rightarrow> action \<Rightarrow> bool" where
  "noOpenEvent list (SetReady x r) = True"
| "noOpenEvent list (Fire x ev) = (\<not> (x \<in> set list \<and> ev = EvOpen))"

text \<open>The wait is pending and no listed socket is open.\<close>

definition pendingW :: "sock list \<Rightarrow> waiter \<Rightarrow> bool" where
  "pendingW list w \<longleftrightarrow> \<not> resolved w \<and> timer w \<and> \<not> someOpen list (sockState w)
      \<and> set (onOpenOn w) \<subseteq> set list"

section \<open>Strategies and the session\<close>

text \<open>
  A strategy module as \<^verbatim>\<open>connect\<close> sees it. \<open>joinRoom\<close> is the outcome of the call
  \<^verbatim>\<open>mod.joinRoom(config, roomId, onJoinError)\<close>: the room it returns, or \<open>None\<close> when it
  throws (the three arguments are passed through unchanged and decide nothing here).
  \<open>getRelaySockets\<close> is \<open>None\<close> when the module has no such method, else
  \<^verbatim>\<open>Object.values\<close> of the map it returns. \<open>relayReady\<close> and \<open>relayEvents\<close> are the
  environment of the health probe: the sockets' ready states when the probe starts and
  what the event loop delivers while it waits.
\<close>

record StrategyModule =
  joinRoom :: "room option"
  getRelaySockets :: "sock list option"
  relayReady :: readyMap
  relayEvents :: schedule

text \<open>\<^verbatim>\<open>type Strategy = { name, load }\<close>; \<open>load\<close> is the outcome of \<^verbatim>\<open>await strat.load()\<close>,
  \<open>None\<close> when the promise rejects.\<close>

record Strategy =
  name :: string
  load :: "StrategyModule option"

text \<open>\<open>AllFailed\<close> is \<^verbatim>\<open>new Error("All connection strategies failed")\<close>; \<open>NoCurrentRoom\<close> is
  the \<^verbatim>\<open>TypeError\<close> of \<^verbatim>\<open>currentRoom.leave()\<close> on an unassigned \<open>currentRoom\<close>;
  \<open>HandlerThrew\<close> is whatever a reconnect handler throws.\<close>

datatype error = AllFailed | NoCurrentRoom | HandlerThrew

text \<open>
  The calls the module makes that others can observe, in the order it makes them: \<open>load\<close>
  of the strategy at an index, \<open>joinRoom\<close> of the module of that strategy, \<open>leave\<close> of a
  room, a reconnect handler with its two arguments, \<^verbatim>\<open>console.error\<close>, and an exception
  that escapes. Calls of \<open>getRelaySockets\<close> only read and are not recorded; the listener
  registrations are kept in the session itself.
\<close>

datatype effect =
    Load nat
  | Join nat
  | Leave room
  | Notify handler room string
  | ConsoleError error
  | Uncaught error

text \<open>
  The variables \<^verbatim>\<open>joinRoomWithFallback\<close> closes over, the sockets and event types on
  which \<open>handleDisconnect\<close> is registered (\<open>listeners\<close>), and the calls made so far.
\<close>

record session =
  active :: bool
  reconnectHandlers :: "handler list"
  currentRoom :: "room option"
  currentModule :: "StrategyModule option"
  listeners :: "(sock \<times> evtype) list"
  log :: "effect list"

text \<open>\<^verbatim>\<open>ws.addEventListener(ev, handleDisconnect)\<close>: registering the same callback for the
  same event again changes nothing. \<^verbatim>\<open>ws.removeEventListener(ev, handleDisconnect)\<close>.\<close>

definition addEventListener :: "sock \<Rightarrow> evtype \<Rightarrow> session \<Rightarrow> session" where
  "addEventListener ws ev s =
     (if (ws, ev) \<in> set (listeners s) then s else s\<lparr>listeners := listeners s @ [(ws, ev)]\<rparr>)"

definition removeEventListener :: "sock \<Rightarrow> evtype \<Rightarrow> session \<Rightarrow> session" where
  "removeEventListener ws ev s = s\<lparr>listeners := removeAll (ws, ev) (listeners s)\<rparr>"

definition watchSockets :: "sock list option \<Rightarrow> session \<Rightarrow> session" where
  "watchSockets sockets s =
     (let list = (case sockets of None \<Rightarrow> [] | Some vs \<Rightarrow> vs) in
      fold (\<lambda>ws s'. addEventListener ws EvError (addEventListener ws EvClose s')) list s)"

text \<open>\<^verbatim>\<open>await waitForRelayOpen(mod.getRelaySockets?.())\<close>, with the default timeout.\<close>

definition probe :: "StrategyModule \<Rightarrow> bool" where
  "probe md = fst (waitForRelayOpen (getRelaySockets md) 5000 (relayReady md) (relayEvents md))"

text \<open>
  \<^verbatim>\<open>connect(startIndex)\<close>, run from its first statement to its return or throw. The
  \<^verbatim>\<open>catch\<close> swallows a rejected \<open>load\<close> and a throwing \<open>joinRoom\<close> and goes on with the
  next index.
\<close>

function connect :: "Strategy list \<Rightarrow> nat \<Rightarrow> session \<Rightarrow> (error + room \<times> string) \<times> session" where
  "connect strategies i s =
     (if i < length strategies then
        (let strat = strategies ! i; s1 = s\<lparr>log := log s @ [Load i]\<rparr> in
         case load strat of
           None \<Rightarrow> connect strategies (Suc i) s1
         | Some md \<Rightarrow>
            (let s2 = s1\<lparr>log := log s1 @ [Join i]\<rparr> in
             case joinRoom md of
               None \<Rightarrow> connect strategies (Suc i) s2
             | Some r \<Rightarrow>
                if probe md
                then (Inr (r, name strat),
                      watchSockets (getRelaySockets md)
                        (s2\<lparr>currentRoom := Some r, currentModule := Some md\<rparr>))
                else connect strategies (Suc i) (s2\<lparr>log := log s2 @ [Leave r]\<rparr>)))
      else (Inl AllFailed, s))"
  by pat_completeness auto
termination
  by (relation "measure (\<lambda>(strategies, i, s). length strategies - i)") auto

text \<open>
  \<^verbatim>\<open>reconnectHandlers.forEach((fn) => fn(room, strategy))\<close>, which stands inside the
  \<^verbatim>\<open>try\<close> of \<open>handleDisconnect\<close>: the handlers are called in order; a handler that throws
  ends the loop, the handlers after it are not called, and the \<^verbatim>\<open>catch\<close> reports what it
  threw.
\<close>

fun forEachHandler :: "handler list \<Rightarrow> room \<Rightarrow> string \<Rightarrow> effect list" where
  "forEachHandler [] r nm = []"
| "forEachHandler (fn # rest) r nm =
     (if returns fn then Notify fn r nm # forEachHandler rest r nm
      else [Notify fn r nm, ConsoleError HandlerThrew])"

text \<open>What \<open>handleDisconnect\<close> does once \<^verbatim>\<open>await connect(0)\<close> has settled: run the handlers
  of the list as it is then, or report the failure of \<open>connect\<close>.\<close>

definition afterConnect :: "(error + room \<times> string) \<times> session \<Rightarrow> session" where
  "afterConnect res =
     (case res of
        (Inr (r, nm), s) \<Rightarrow> s\<lparr>log := log s @ forEachHandler (reconnectHandlers s) r nm\<rparr>
      | (Inl err, s) \<Rightarrow> s\<lparr>log := log s @ [ConsoleError err]\<rparr>)"

text \<open>\<open>handleDisconnect\<close>, run to its end with nothing else running in between.\<close>

definition handleDisconnect :: "Strategy list \<Rightarrow> session \<Rightarrow> session" where
  "handleDisconnect strategies s =
     (if \<not> active s then s else afterConnect (connect strategies 0 s))"

text \<open>An event \<open>ev\<close> dispatched on socket \<open>ws\<close>: it runs \<open>handleDisconnect\<close> when that
  listener is registered there.\<close>

definition socketEvent :: "Strategy list \<Rightarrow> sock \<Rightarrow> evtype \<Rightarrow> session \<Rightarrow> session" where
  "socketEvent strategies ws ev s =
     (if (ws, ev) \<in> set (listeners s) then handleDisconnect strategies s else s)"

text \<open>The object \<^verbatim>\<open>joinRoomWithFallback\<close> returns: its two data properties. Its two
  methods are \<open>onReconnect\<close> and \<open>leave\<close> below, acting on the closure's variables.\<close>

record FallbackRoom =
  room :: room
  strategy :: string

definition initial :: session where
  "initial = \<lparr>active = True, reconnectHandlers = [], currentRoom = None,
               currentModule = None, listeners = [], log = []\<rparr>"

definition joinRoomWithFallback :: "Strategy list \<Rightarrow> error + FallbackRoom \<times> session" where
  "joinRoomWithFallback strategies =
     (case connect strategies 0 initial of
        (Inl err, s) \<Rightarrow> Inl err
      | (Inr (r, nm), s) \<Rightarrow> Inr (\<lparr>room = r, strategy = nm\<rparr>, s))"

definition onReconnect :: "handler \<Rightarrow> session \<Rightarrow> session" where
  "onReconnect h s = s\<lparr>reconnectHandlers := reconnectHandlers s @ [h]\<rparr>"

text \<open>\<^verbatim>\<open>leave()\<close>. The last call throws when \<open>currentRoom\<close> was never assigned, after the
  other statements have taken effect.\<close>

definition leave :: "session \<Rightarrow> session" where
  "leave s =
     (let s1 = s\<lparr>active := False, reconnectHandlers := []\<rparr>;
          s2 = (case currentModule s1 of
                  None \<Rightarrow> s1
                | Some md \<Rightarrow>
                   (case getRelaySockets md of
                      None \<Rightarrow> s1
                    | Some vs \<Rightarrow>
                       fold (\<lambda>ws s'. removeEventListener ws EvError
                                        (removeEventListener ws EvClose s')) vs s1))
      in case currentRoom s2 of
           None \<Rightarrow> s2\<lparr>log := log s2 @ [Uncaught NoCurrentRoom]\<rparr>
         | Some r \<Rightarrow> s2\<lparr>log := log s2 @ [Leave r]\<rparr>)"

section \<open>Suspension points\<close>

text \<open>
  \<open>handleDisconnect\<close> is asynchronous: a scan that it starts is suspended at each
  \<^verbatim>\<open>await\<close> of \<open>connect\<close>, and other callbacks run before it resumes. A suspended scan is
  at \<^verbatim>\<open>await strat.load()\<close>, at \<^verbatim>\<open>await waitForRelayOpen(...)\<close> or at
  \<^verbatim>\<open>await room.leave()\<close>, holding the locals \<open>i\<close>, \<open>strat\<close>, \<open>mod\<close> and \<open>room\<close> it will use.
\<close>

datatype pc =
    AwaitLoad nat Strategy
  | AwaitProbe nat Strategy StrategyModule room
  | AwaitLeave nat

datatype progress = Suspended pc | Done "error + room \<times> string"

text \<open>The head of the \<^verbatim>\<open>for\<close> loop at index \<open>i\<close>, up to the first \<^verbatim>\<open>await\<close>.\<close>

definition enter :: "Strategy list \<Rightarrow> nat \<Rightarrow> session \<Rightarrow> progress \<times> session" where
  "enter strategies i s =
     (if i < length strategies
      then (Suspended (AwaitLoad i (strategies ! i)), s\<lparr>log := log s @ [Load i]\<rparr>)
      else (Done (Inl AllFailed), s))"

text \<open>A suspended scan resumes when the promise it awaits settles, and runs to its next
  \<^verbatim>\<open>await\<close>, its return or its throw.\<close>

fun resume :: "Strategy list \<Rightarrow> pc \<Rightarrow> session \<Rightarrow> progress \<times> session" where
  "resume strategies (AwaitLoad i strat) s =
     (case load strat of
        None \<Rightarrow> enter strategies (Suc i) s
      | Some md \<Rightarrow>
         (let s2 = s\<lparr>log := log s @ [Join i]\<rparr> in
          case joinRoom md of
            None \<Rightarrow> enter strategies (Suc i) s2
          | Some r \<Rightarrow> (Suspended (AwaitProbe i strat md r), s2)))"
| "resume strategies (AwaitProbe i strat md r) s =
     (if probe md
      then (Done (Inr (r, name strat)),
            watchSockets (getRelaySockets md) (s\<lparr>currentRoom := Some r, currentModule := Some md\<rparr>))
      else (Suspended (AwaitLeave i), s\<lparr>log := log s @ [Leave r]\<rparr>))"
| "resume strategies (AwaitLeave i) s = enter strategies (Suc i) s"

text \<open>Everything that lives after \<^verbatim>\<open>joinRoomWithFallback\<close> has returned: the closure's
  variables, the scans of \<open>handleDisconnect\<close> that are in flight, and the object that was
  returned to the caller.\<close>

record runtime =
  sess :: session
  inflight :: "pc list"
  facade :: FallbackRoom

definition construct :: "Strategy list \<Rightarrow> error + runtime" where
  "construct strategies =
     (case joinRoomWithFallback strategies of
        Inl err \<Rightarrow> Inl err
      | Inr (fb, s) \<Rightarrow> Inr \<lparr>sess = s, inflight = [], facade = fb\<rparr>)"

text \<open>
  What can happen next: an event is dispatched on a socket, the promise awaited by the
  \<open>n\<close>-th scan in flight settles, or the owner of the \<open>FallbackRoom\<close> calls one of its
  methods.
\<close>

datatype event =
    SocketEvent sock evtype
  | Settle nat
  | OnReconnect handler
  | LeaveCall

text \<open>\<open>handleDisconnect\<close> up to its first suspension.\<close>

definition startDisconnect :: "Strategy list \<Rightarrow> runtime \<Rightarrow> runtime" where
  "startDisconnect strategies rt =
     (if \<not> active (sess rt) then rt
      else
        (case enter strategies 0 (sess rt) of
           (Suspended p, s') \<Rightarrow> rt\<lparr>sess := s', inflight := inflight rt @ [p]\<rparr>
         | (Done res, s') \<Rightarrow> rt\<lparr>sess := afterConnect (res, s')\<rparr>))"

fun step :: "Strategy list \<Rightarrow> event \<Rightarrow> runtime \<Rightarrow> runtime" where
  "step strategies (SocketEvent ws ev) rt =
     (if (ws, ev) \<in> set (listeners (sess rt)) then startDisconnect strategies rt else rt)"
| "step strategies (Settle n) rt =
     (if n < length (inflight rt) then
        (case resume strategies (inflight rt ! n) (sess rt) of
           (Suspended p, s') \<Rightarrow> rt\<lparr>sess := s', inflight := (inflight rt)[n := p]\<rparr>
         | (Done res, s') \<Rightarrow>
             rt\<lparr>sess := afterConnect (res, s'),
                inflight := take n (inflight rt) @ drop (Suc n) (inflight rt)\<rparr>)
      else rt)"
| "step strategies (OnReconnect h) rt = rt\<lparr>sess := onReconnect h (sess rt)\<rparr>"
| "step strategies LeaveCall rt = rt\<lparr>sess := leave (sess rt)\<rparr>"

fun steps :: "Strategy list \<Rightarrow> event list \<Rightarrow> runtime \<Rightarrow> runtime" where
  "steps strategies [] rt = rt"
| "steps strategies (e # es) rt = steps strategies es (step strategies e rt)"

section \<open>Vocabulary of the statements\<close>

text \<open>A candidate fails when its \<open>load\<close> rejects, its \<open>joinRoom\<close> throws or its health
  probe reports unhealthy; otherwise it succeeds.\<close>

definition fails :: "Strategy \<Rightarrow> bool" where
  "fails strat =
     (case load strat of
        None \<Rightarrow> True
      | Some md \<Rightarrow> (case joinRoom md of None \<Rightarrow> True | Some r \<Rightarrow> \<not> probe md))"

text \<open>The calls made between a state and a later one; the indices loaded and joined
  among some calls, and the notifications among them.\<close>

definition calls :: "session \<Rightarrow> session \<Rightarrow> effect list" where
  "calls s s' = drop (length (log s)) (log s')"

fun loadsOf :: "effect list \<Rightarrow> nat list" where
  "loadsOf [] = []"
| "loadsOf (Load i # es) = i # loadsOf es"
| "loadsOf (e # es) = loadsOf es"

fun joinsOf :: "effect list \<Rightarrow> nat list" where
  "joinsOf [] = []"
| "joinsOf (Join i # es) = i # joinsOf es"
| "joinsOf (e # es) = joinsOf es"

fun isNotify :: "effect \<Rightarrow> bool" where
  "isNotify (Notify h r nm) = True"
| "isNotify e = False"

text \<open>The handlers of a list up to and including the first that throws.\<close>

definition invoked :: "handler list \<Rightarrow> handler list" where
  "invoked hs = takeWhile returns hs @ take 1 (dropWhile returns hs)"

text \<open>The calls of one pass of the loop body of \<open>connect\<close> at index \<open>i\<close>, and of the scan
  over the candidates \<open>xs\<close> that stand at the indices from \<open>i\<close> on.\<close>

definition attemptCalls :: "nat \<Rightarrow> Strategy \<Rightarrow> effect list" where
  "attemptCalls i strat =
     (case load strat of
        None \<Rightarrow> [Load i]
      | Some md \<Rightarrow>
         (case joinRoom md of
            None \<Rightarrow> [Load i, Join i]
          | Some r \<Rightarrow> if probe md then [Load i, Join i] else [Load i, Join i, Leave r]))"

fun scanCalls :: "nat \<Rightarrow> Strategy list \<Rightarrow> effect list" where
  "scanCalls i [] = []"
| "scanCalls i (strat # rest) =
     attemptCalls i strat @ (if fails strat then scanCalls (Suc i) rest else [])"


section \<open>Example registries\<close>

text \<open>
  Three candidates: \<open>A\<close> fails to load; \<open>B\<close> joins room 20 but its only socket 1 never
  opens; \<open>C\<close> joins room 30 and its socket 2 is already open. A later state of the same
  transports: \<open>B\<close> has come back and joins room 21 over a fresh socket 3, which opens 40
  ms after the probe has started.
\<close>

definition moduleB :: StrategyModule where
  "moduleB = \<lparr>joinRoom = Some 20, getRelaySockets = Some [1], relayReady = [], relayEvents = []\<rparr>"

definition moduleC :: StrategyModule where
  "moduleC = \<lparr>joinRoom = Some 30, getRelaySockets = Some [2], relayReady = [(2, OPEN)],
               relayEvents = []\<rparr>"

definition moduleB' :: StrategyModule where
  "moduleB' = \<lparr>joinRoom = Some 21, getRelaySockets = Some [3], relayReady = [],
                relayEvents = [(40, SetReady 3 OPEN), (40, Fire 3 EvOpen)]\<rparr>"

definition registryABC :: "Strategy list" where
  "registryABC = [\<lparr>name = ''A'', load = None\<rparr>, \<lparr>name = ''B'', load = Some moduleB\<rparr>,
                  \<lparr>name = ''C'', load = Some moduleC\<rparr>]"

definition registryAB :: "Strategy list" where
  "registryAB = [\<lparr>name = ''A'', load = None\<rparr>, \<lparr>name = ''B'', load = Some moduleB\<rparr>]"

definition registryAB'C :: "Strategy list" where
  "registryAB'C = [\<lparr>name = ''A'', load = None\<rparr>, \<lparr>name = ''B'', load = Some moduleB'\<rparr>,
                   \<lparr>name = ''C'', load = Some moduleC\<rparr>]"

text \<open>The session right after \<^verbatim>\<open>joinRoomWithFallback\<close> has connected over \<open>C\<close>.\<close>

definition sessionC :: session where
  "sessionC = \<lparr>active = True, reconnectHandlers = [], currentRoom = Some 30,
                currentModule = Some moduleC, listeners = [(2, EvClose), (2, EvError)],
                log = [Load 0, Load 1, Join 1, Leave 20, Load 2, Join 2]\<rparr>"

definition runtimeC :: runtime where
  "runtimeC = \<lparr>sess = sessionC, inflight = [], facade = \<lparr>room = 30, strategy = ''C''\<rparr>\<rparr>"


text \<open>The same session a little later: socket 2 has closed, the scan that this started
  has seen \<open>A\<close> fail again and waits for the health probe of \<open>B\<close>, which has joined room 21.\<close>

definition runtimeProbing :: runtime where
  "runtimeProbing =
     \<lparr>sess = sessionC\<lparr>log := log sessionC @ [Load 0, Load 1, Join 1]\<rparr>,
      inflight = [AwaitProbe 1 \<lparr>name = ''B'', load = Some moduleB'\<rparr> moduleB' 21],
      facade = \<lparr>room = 30, strategy = ''C''\<rparr>\<rparr>"


section \<open>Properties of waitForRelayOpen\<close>

lemma readyStateOf_Cons [simp]:
  "readyStateOf ((ws, r) # rs) x = (if x = ws then r else readyStateOf rs x)"
  by (simp add: readyStateOf_def)

lemma someOpen_iff: "someOpen list rs \<longleftrightarrow> (\<exists>ws \<in> set list. readyStateOf rs ws = OPEN)"
  by (simp add: someOpen_def list_ex_iff)

lemma cleanup_fields [simp]:
  "resolved (cleanup list w) = resolved w" "timer (cleanup list w) = timer w"
  "sockState (cleanup list w) = sockState w" "answer (cleanup list w) = answer w"
  "answeredAt (cleanup list w) = answeredAt w"
  "set (onOpenOn (cleanup list w)) = set (onOpenOn w) - set list"
  by (auto simp: cleanup_def)

text \<open>Once settled, nothing changes the answer.\<close>

lemma onOpen_resolved: "resolved w \<Longrightarrow> onOpen list now w = w"
  by (simp add: onOpen_def)

lemma deliver_resolved:
  "resolved w \<Longrightarrow> resolved (deliver list now a w) \<and> answer (deliver list now a w) = answer w
     \<and> answeredAt (deliver list now a w) = answeredAt w"
  by (cases a) (simp_all add: onOpen_def)

lemma onTimer_resolved:
  "resolved w \<Longrightarrow> resolved (onTimer list now w) \<and> answer (onTimer list now w) = answer w
     \<and> answeredAt (onTimer list now w) = answeredAt w"
  by (simp add: onTimer_def)

lemma run_resolved:
  "resolved w \<Longrightarrow> resolved (run list timeout sched w) \<and> answer (run list timeout sched w) = answer w
     \<and> answeredAt (run list timeout sched w) = answeredAt w"
proof (induction sched arbitrary: w)
  case Nil
  then show ?case by (simp add: onTimer_resolved)
next
  case (Cons p sched)
  obtain t a where p: "p = (t, a)" by (cases p)
  show ?case
  proof (cases "timer w \<and> timeout < t")
    case True
    let ?w1 = "deliver list t a (onTimer list timeout w)"
    have r1: "resolved ?w1 \<and> answer ?w1 = answer w \<and> answeredAt ?w1 = answeredAt w"
      using Cons.prems onTimer_resolved [of w list timeout]
        deliver_resolved [of "onTimer list timeout w" list t a] by simp
    show ?thesis using Cons.IH [of ?w1] r1 True p by simp
  next
    case False
    let ?w1 = "deliver list t a w"
    have r1: "resolved ?w1 \<and> answer ?w1 = answer w \<and> answeredAt ?w1 = answeredAt w"
      using Cons.prems deliver_resolved [of w list t a] by simp
    show ?thesis using Cons.IH [of ?w1] r1 False p by auto
  qed
qed

lemma attach_resolved:
  "resolved w \<Longrightarrow> resolved (attach list xs w) \<and> answer (attach list xs w) = answer w
     \<and> answeredAt (attach list xs w) = answeredAt w"
  by (induction xs arbitrary: w) (simp_all add: onOpen_resolved)

text \<open>The promise always settles: the timer is pending until something resolves.\<close>

lemma onOpen_pending: "timer w \<or> resolved w \<Longrightarrow> timer (onOpen list now w) \<or> resolved (onOpen list now w)"
  by (auto simp: onOpen_def)

lemma deliver_pending:
  "timer w \<or> resolved w \<Longrightarrow> timer (deliver list now a w) \<or> resolved (deliver list now a w)"
  by (cases a) (auto simp: onOpen_def)

lemma attach_pending:
  "timer w \<or> resolved w \<Longrightarrow> timer (attach list xs w) \<or> resolved (attach list xs w)"
  by (induction xs arbitrary: w) (auto simp: onOpen_def)

lemma onTimer_settles: "resolved (onTimer list now w)"
  by (simp add: onTimer_def)

lemma run_settles: "timer w \<or> resolved w \<Longrightarrow> resolved (run list timeout sched w)"
proof (induction sched arbitrary: w)
  case Nil
  then show ?case by (auto simp: onTimer_settles)
next
  case (Cons p sched)
  obtain t a where p: "p = (t, a)" by (cases p)
  show ?case
  proof (cases "timer w \<and> timeout < t")
    case True
    have "resolved (deliver list t a (onTimer list timeout w))"
      using deliver_resolved [of "onTimer list timeout w" list t a] onTimer_settles by simp
    then show ?thesis using Cons.IH True p by simp
  next
    case False
    have "timer (deliver list t a w) \<or> resolved (deliver list t a w)"
      using Cons.prems by (rule deliver_pending)
    then show ?thesis using Cons.IH False p by auto
  qed
qed

lemma attach_pending_all:
  assumes "pendingW list w" "set xs \<subseteq> set list"
  shows "pendingW list (attach list xs w) \<and> sockState (attach list xs w) = sockState w
     \<and> set (onOpenOn (attach list xs w)) = set (onOpenOn w) \<union> set xs"
  using assms
proof (induction xs arbitrary: w)
  case Nil
  then show ?case by simp
next
  case (Cons x xs)
  have nx: "readyStateOf (sockState w) x \<noteq> OPEN"
    using Cons.prems by (auto simp: pendingW_def someOpen_iff)
  let ?w1 = "if x \<in> set (onOpenOn w) then w else w\<lparr>onOpenOn := onOpenOn w @ [x]\<rparr>"
  have p1: "pendingW list ?w1" using Cons.prems by (auto simp: pendingW_def)
  have s1: "sockState ?w1 = sockState w" by simp
  have l1: "set (onOpenOn ?w1) = insert x (set (onOpenOn w))" by auto
  have step: "attach list (x # xs) w = attach list xs ?w1" using nx by simp
  from Cons.IH [OF p1] Cons.prems(2)
  have "pendingW list (attach list xs ?w1) \<and> sockState (attach list xs ?w1) = sockState ?w1
     \<and> set (onOpenOn (attach list xs ?w1)) = set (onOpenOn ?w1) \<union> set xs" by simp
  then show ?case unfolding step s1 l1 by auto
qed

lemma attach_open_now:
  assumes "\<not> resolved w" "\<exists>ws \<in> set xs. readyStateOf (sockState w) ws = OPEN" "set xs \<subseteq> set list"
  shows "resolved (attach list xs w) \<and> answer (attach list xs w) = True
     \<and> answeredAt (attach list xs w) = 0"
  using assms
proof (induction xs arbitrary: w)
  case Nil
  then show ?case by simp
next
  case (Cons x xs)
  show ?case
  proof (cases "readyStateOf (sockState w) x = OPEN")
    case True
    have so: "someOpen list (sockState w)" using True Cons.prems(3) by (auto simp: someOpen_iff)
    let ?w1 = "onOpen list 0 w"
    have "resolved ?w1 \<and> answer ?w1 = True \<and> answeredAt ?w1 = 0"
      using so Cons.prems(1) by (simp add: onOpen_def)
    then show ?thesis using attach_resolved [of ?w1 list xs] True by simp
  next
    case False
    let ?w1 = "if x \<in> set (onOpenOn w) then w else w\<lparr>onOpenOn := onOpenOn w @ [x]\<rparr>"
    have a: "\<not> resolved ?w1" using Cons.prems(1) by simp
    have b: "\<exists>ws \<in> set xs. readyStateOf (sockState ?w1) ws = OPEN"
      using Cons.prems(2) False by auto
    have c: "set xs \<subseteq> set list" using Cons.prems(3) by simp
    from Cons.IH [OF a b c] show ?thesis using False by simp
  qed
qed

lemma deliver_quiet:
  assumes "pendingW list w" "quiet list ws a"
  shows "pendingW list (deliver list now a w)
     \<and> (ws \<in> set (onOpenOn w) \<longrightarrow> ws \<in> set (onOpenOn (deliver list now a w)))"
proof (cases a)
  case (SetReady x r)
  then show ?thesis using assms by (auto simp: pendingW_def someOpen_iff)
next
  case (Fire x ev)
  then show ?thesis using assms by (auto simp: pendingW_def onOpen_def)
qed

lemma run_quiet_prefix:
  assumes "pendingW list w" "ws \<in> set (onOpenOn w)"
    "list_all (\<lambda>(t, a). t \<le> timeout \<and> quiet list ws a) pre"
  shows "\<exists>w'. pendingW list w' \<and> ws \<in> set (onOpenOn w')
     \<and> run list timeout (pre @ rest) w = run list timeout rest w'"
  using assms
proof (induction pre arbitrary: w)
  case Nil
  then show ?case by auto
next
  case (Cons p pre)
  obtain t a where p: "p = (t, a)" by (cases p)
  have ta: "t \<le> timeout" "quiet list ws a" using Cons.prems(3) p by auto
  let ?w1 = "deliver list t a w"
  have d: "pendingW list ?w1" "ws \<in> set (onOpenOn ?w1)"
    using deliver_quiet [OF Cons.prems(1) ta(2), of t] Cons.prems(2) by auto
  have r: "list_all (\<lambda>(t, a). t \<le> timeout \<and> quiet list ws a) pre"
    using Cons.prems(3) by simp
  have "run list timeout ((p # pre) @ rest) w = run list timeout (pre @ rest) ?w1"
    using p ta(1) by simp
  then show ?case using Cons.IH [OF d r] by simp
qed

lemma run_open_event:
  assumes "pendingW list w" "ws \<in> set (onOpenOn w)" "T \<le> timeout"
  shows "answer (run list timeout ((T, SetReady ws OPEN) # (T, Fire ws EvOpen) # post) w) = True
     \<and> answeredAt (run list timeout ((T, SetReady ws OPEN) # (T, Fire ws EvOpen) # post) w) = T"
proof -
  have wl: "ws \<in> set list" using assms(1,2) by (auto simp: pendingW_def)
  let ?w1 = "deliver list T (SetReady ws OPEN) w"
  let ?w2 = "deliver list T (Fire ws EvOpen) ?w1"
  have so: "someOpen list (sockState ?w1)" using wl by (auto simp: someOpen_iff)
  have "resolved ?w2 \<and> answer ?w2 = True \<and> answeredAt ?w2 = T"
    using assms(1,2) so by (simp add: pendingW_def onOpen_def)
  moreover have "run list timeout ((T, SetReady ws OPEN) # (T, Fire ws EvOpen) # post) w
      = run list timeout post ?w2"
    using assms(3) by simp
  ultimately show ?thesis using run_resolved [of ?w2 list timeout post] by simp
qed

text \<open>When no open event reaches a listed socket before the timer, the timer answers.\<close>

lemma run_timer_first:
  assumes "\<not> resolved w" "timer w" "set (onOpenOn w) \<subseteq> set list"
    "list_all (\<lambda>(t, a). noOpenEvent list a) (beforeTimer timeout sched)"
  shows "answer (run list timeout sched w)
       = someOpen list (applyReady (beforeTimer timeout sched) (sockState w))
     \<and> answeredAt (run list timeout sched w) = timeout"
  using assms
proof (induction sched arbitrary: w)
  case Nil
  then show ?case by (simp add: beforeTimer_def onTimer_def)
next
  case (Cons p sched)
  obtain t a where p: "p = (t, a)" by (cases p)
  show ?case
  proof (cases "timeout < t")
    case True
    let ?w0 = "onTimer list timeout w"
    let ?w1 = "deliver list t a ?w0"
    have r0: "resolved ?w0 \<and> answer ?w0 = someOpen list (sockState w) \<and> answeredAt ?w0 = timeout"
      using Cons.prems(1) by (simp add: onTimer_def)
    have r1: "resolved ?w1 \<and> answer ?w1 = someOpen list (sockState w) \<and> answeredAt ?w1 = timeout"
      using r0 deliver_resolved [of ?w0 list t a] by simp
    have "run list timeout (p # sched) w = run list timeout sched ?w1"
      using True p Cons.prems(2) by simp
    moreover have "beforeTimer timeout (p # sched) = []"
      using True p by (simp add: beforeTimer_def)
    ultimately show ?thesis using r1 run_resolved [of ?w1 list timeout sched] by simp
  next
    case False
    let ?w1 = "deliver list t a w"
    have bt: "beforeTimer timeout (p # sched) = (t, a) # beforeTimer timeout sched"
      using False p by (simp add: beforeTimer_def)
    have na: "noOpenEvent list a" using Cons.prems(4) bt by simp
    have w1: "\<not> resolved ?w1 \<and> timer ?w1 \<and> set (onOpenOn ?w1) \<subseteq> set list
        \<and> applyReady [(t, a)] (sockState w) = sockState ?w1"
    proof (cases a)
      case (SetReady x r)
      then show ?thesis using Cons.prems by simp
    next
      case (Fire x ev)
      then show ?thesis using Cons.prems(1,2,3) na by auto
    qed
    have ar: "applyReady ((t, a) # beforeTimer timeout sched) (sockState w)
        = applyReady (beforeTimer timeout sched) (sockState ?w1)"
      using w1 by (cases a) simp_all
    have rest: "list_all (\<lambda>(t, a). noOpenEvent list a) (beforeTimer timeout sched)"
      using Cons.prems(4) bt by simp
    have "run list timeout (p # sched) w = run list timeout sched ?w1"
      using False p by simp
    then show ?thesis using Cons.IH [of ?w1] w1 rest bt ar by simp
  qed
qed

lemma waitForRelayOpen_settles:
  "list \<noteq> [] \<Longrightarrow>
   resolved (run list timeout sched
     (attach list list \<lparr>resolved = False, timer = True, onOpenOn = [], sockState = rs,
        answer = False, answeredAt = 0\<rparr>))"
  by (rule run_settles, rule attach_pending) simp

lemma waitForRelayOpen_already_open:
  assumes "someOpen list rs"
  shows "waitForRelayOpen (Some list) timeout rs sched = (True, 0)"
proof -
  let ?w0 = "\<lparr>resolved = False, timer = True, onOpenOn = [], sockState = rs,
     answer = False, answeredAt = 0\<rparr>"
  have ne: "list \<noteq> []" using assms by (auto simp: someOpen_iff)
  have "resolved (attach list list ?w0) \<and> answer (attach list list ?w0) = True
     \<and> answeredAt (attach list list ?w0) = 0"
    using assms by (intro attach_open_now) (auto simp: someOpen_iff)
  then show ?thesis
    using ne run_resolved [of "attach list list ?w0" list timeout sched]
    by (simp add: waitForRelayOpen_def Let_def)
qed

lemma waitForRelayOpen_first_open:
  assumes "ws \<in> set list" "\<not> someOpen list rs" "T < timeout"
    "list_all (\<lambda>(t, a). t \<le> T \<and> quiet list ws a) pre"
  shows "waitForRelayOpen (Some list) timeout rs
           (pre @ (T, SetReady ws OPEN) # (T, Fire ws EvOpen) # post) = (True, T)"
proof -
  let ?w0 = "\<lparr>resolved = False, timer = True, onOpenOn = [], sockState = rs,
     answer = False, answeredAt = 0\<rparr>"
  let ?w1 = "attach list list ?w0"
  have ne: "list \<noteq> []" using assms(1) by auto
  have p0: "pendingW list ?w0" using assms(2) by (simp add: pendingW_def)
  have a1: "pendingW list ?w1 \<and> sockState ?w1 = sockState ?w0
     \<and> set (onOpenOn ?w1) = set (onOpenOn ?w0) \<union> set list"
    by (rule attach_pending_all [OF p0]) simp
  have m1: "ws \<in> set (onOpenOn ?w1)" using a1 assms(1) by simp
  have pre': "list_all (\<lambda>(t, a). t \<le> timeout \<and> quiet list ws a) pre"
    using assms(3,4) by (auto simp: list_all_iff)
  obtain w' where w': "pendingW list w'" "ws \<in> set (onOpenOn w')"
    "run list timeout (pre @ (T, SetReady ws OPEN) # (T, Fire ws EvOpen) # post) ?w1
       = run list timeout ((T, SetReady ws OPEN) # (T, Fire ws EvOpen) # post) w'"
    using run_quiet_prefix [of list ?w1 ws timeout pre] a1 m1 pre' by blast
  have "T \<le> timeout" using assms(3) by simp
  from run_open_event [OF w'(1,2) this, of post] w'(3) ne
  show ?thesis by (simp add: waitForRelayOpen_def Let_def)
qed

lemma waitForRelayOpen_timer_first:
  assumes "list \<noteq> []" "\<not> someOpen list rs"
    "list_all (\<lambda>(t, a). noOpenEvent list a) (beforeTimer timeout sched)"
  shows "waitForRelayOpen (Some list) timeout rs sched
           = (someOpen list (readyAt timeout sched rs), timeout)"
proof -
  let ?w0 = "\<lparr>resolved = False, timer = True, onOpenOn = [], sockState = rs,
     answer = False, answeredAt = 0\<rparr>"
  let ?w1 = "attach list list ?w0"
  have p0: "pendingW list ?w0" using assms(2) by (simp add: pendingW_def)
  have a1: "pendingW list ?w1 \<and> sockState ?w1 = sockState ?w0
     \<and> set (onOpenOn ?w1) = set (onOpenOn ?w0) \<union> set list"
    by (rule attach_pending_all [OF p0]) simp
  have "answer (run list timeout sched ?w1)
       = someOpen list (applyReady (beforeTimer timeout sched) (sockState ?w1))
     \<and> answeredAt (run list timeout sched ?w1) = timeout"
    using a1 assms(3) by (intro run_timer_first) (auto simp: pendingW_def)
  then show ?thesis using a1 assms(1) by (simp add: waitForRelayOpen_def Let_def readyAt_def)
qed

text \<open>
  Claim C3. \<^verbatim>\<open>waitForRelayOpen\<close> resolves true at once (time 0) when the socket map is
  absent or empty, and also when some listed socket is already \<open>OPEN\<close> at the call. When
  the first listed socket to reach \<open>OPEN\<close> does so at a time \<open>T\<close> strictly before the timeout
  (its ready state changes and its open event is dispatched at \<open>T\<close>; until then no listed
  socket has opened and its open event has not been dispatched), the promise resolves true
  at \<open>T\<close>, not at the timeout. When no open event reaches a listed socket before the
  timer's callback runs, the promise resolves at the timeout, to whether some listed
  socket is \<open>OPEN\<close> at that instant.
\<close>

theorem C3_waitForRelayOpen_timing:
  "waitForRelayOpen None timeout rs sched = (True, 0)
   \<and> waitForRelayOpen (Some []) timeout rs sched = (True, 0)
   \<and> (someOpen list rs \<longrightarrow> waitForRelayOpen (Some list) timeout rs sched = (True, 0))
   \<and> (ws \<in> set list \<and> \<not> someOpen list rs \<and> T < timeout
        \<and> list_all (\<lambda>(t, a). t \<le> T \<and> quiet list ws a) pre
      \<longrightarrow> waitForRelayOpen (Some list) timeout rs
            (pre @ (T, SetReady ws OPEN) # (T, Fire ws EvOpen) # post) = (True, T))
   \<and> (list \<noteq> [] \<and> \<not> someOpen list rs
        \<and> list_all (\<lambda>(t, a). noOpenEvent list a) (beforeTimer timeout sched)
      \<longrightarrow> waitForRelayOpen (Some list) timeout rs sched
            = (someOpen list (readyAt timeout sched rs), timeout))"
proof (intro conjI impI)
  show "waitForRelayOpen None timeout rs sched = (True, 0)"
    by (simp add: waitForRelayOpen_def)
  show "waitForRelayOpen (Some []) timeout rs sched = (True, 0)"
    by (simp add: waitForRelayOpen_def)
next
  assume "someOpen list rs"
  then show "waitForRelayOpen (Some list) timeout rs sched = (True, 0)"
    by (rule waitForRelayOpen_already_open)
next
  assume "ws \<in> set list \<and> \<not> someOpen list rs \<and> T < timeout
        \<and> list_all (\<lambda>(t, a). t \<le> T \<and> quiet list ws a) pre"
  then show "waitForRelayOpen (Some list) timeout rs
            (pre @ (T, SetReady ws OPEN) # (T, Fire ws EvOpen) # post) = (True, T)"
    using waitForRelayOpen_first_open by blast
next
  assume "list \<noteq> [] \<and> \<not> someOpen list rs
        \<and> list_all (\<lambda>(t, a). noOpenEvent list a) (beforeTimer timeout sched)"
  then show "waitForRelayOpen (Some list) timeout rs sched
            = (someOpen list (readyAt timeout sched rs), timeout)"
    using waitForRelayOpen_timer_first by blast
qed

text \<open>
  C3 at concrete inputs, two sockets and the 5000 ms default: no map; socket 1 already
  open at the call; socket 2 opens at 3 ms after socket 1 has closed at 1 ms; socket 2
  becomes \<open>OPEN\<close> at exactly 5000 ms and the timer's callback sees it.
\<close>

theorem C3_waitForRelayOpen_timing_witness:
  "waitForRelayOpen None 5000 [] [(5000, SetReady 2 OPEN)] = (True, 0)
   \<and> waitForRelayOpen (Some []) 5000 [] [(5000, SetReady 2 OPEN)] = (True, 0)
   \<and> someOpen [1, 2] [(1, OPEN)]
   \<and> waitForRelayOpen (Some [1, 2]) 5000 [(1, OPEN)] [(5000, SetReady 2 OPEN)] = (True, 0)
   \<and> (2::nat) \<in> set [1, 2] \<and> \<not> someOpen [1, 2] [] \<and> (3::nat) < 5000
   \<and> list_all (\<lambda>(t, a). t \<le> 3 \<and> quiet [1, 2] 2 a) [(1::nat, SetReady 1 CLOSED)]
   \<and> waitForRelayOpen (Some [1, 2]) 5000 []
        ([(1, SetReady 1 CLOSED)] @ (3, SetReady 2 OPEN) # (3, Fire 2 EvOpen) # []) = (True, 3)
   \<and> list_all (\<lambda>(t, a). noOpenEvent [1, 2] a) (beforeTimer 5000 [(5000, SetReady 2 OPEN)])
   \<and> waitForRelayOpen (Some [1, 2]) 5000 [] [(5000, SetReady 2 OPEN)] = (True, 5000)"
proof -
  have h0: "someOpen [1, 2] [(1, OPEN)]"
    by (simp add: someOpen_def)
  have h1: "(2::nat) \<in> set [1, 2] \<and> \<not> someOpen [1, 2] [] \<and> (3::nat) < 5000
     \<and> list_all (\<lambda>(t, a). t \<le> 3 \<and> quiet [1, 2] 2 a) [(1::nat, SetReady 1 CLOSED)]"
    by (simp add: someOpen_def readyStateOf_def)
  have h2: "[1, 2::nat] \<noteq> [] \<and> \<not> someOpen [1, 2] []
     \<and> list_all (\<lambda>(t, a). noOpenEvent [1, 2] a) (beforeTimer 5000 [(5000, SetReady 2 OPEN)])"
    by (simp add: someOpen_def readyStateOf_def beforeTimer_def)
  have r: "someOpen [1, 2] (readyAt 5000 [(5000, SetReady 2 OPEN)] []) = True"
    by (simp add: someOpen_def readyAt_def beforeTimer_def)
  note c3 = C3_waitForRelayOpen_timing
    [where timeout = 5000 and rs = "[]" and sched = "[(5000, SetReady 2 OPEN)]" and ws = 2
       and list = "[1, 2]" and T = 3 and pre = "[(1, SetReady 1 CLOSED)]" and post = "[]"]
  note c3' = C3_waitForRelayOpen_timing
    [where timeout = 5000 and rs = "[(1, OPEN)]" and sched = "[(5000, SetReady 2 OPEN)]"
       and list = "[1, 2]"]
  have a: "waitForRelayOpen (Some [1, 2]) 5000 [(1, OPEN)] [(5000, SetReady 2 OPEN)] = (True, 0)"
    using c3' h0 by blast
  from c3 h0 h1 h2 r a show ?thesis by simp
qed

section \<open>Properties of connect\<close>

declare connect.simps [simp del]

lemma log_addEventListener [simp]: "log (addEventListener ws ev s) = log s"
  by (simp add: addEventListener_def)

lemma log_watch_fold:
  "log (fold (\<lambda>ws s'. addEventListener ws EvError (addEventListener ws EvClose s')) xs s) = log s"
  by (induction xs arbitrary: s) simp_all

lemma log_watchSockets [simp]: "log (watchSockets sockets s) = log s"
  by (simp add: watchSockets_def log_watch_fold)

lemma connect_exhausted: "\<not> i < length strategies \<Longrightarrow> connect strategies i s = (Inl AllFailed, s)"
  by (simp add: connect.simps)

lemma connect_fails:
  assumes "i < length strategies" "fails (strategies ! i)"
  shows "connect strategies i s
       = connect strategies (Suc i) (s\<lparr>log := log s @ attemptCalls i (strategies ! i)\<rparr>)"
proof (cases "load (strategies ! i)")
  case None
  then show ?thesis using assms(1)
    by (subst connect.simps) (simp add: attemptCalls_def)
next
  case (Some md)
  show ?thesis
  proof (cases "joinRoom md")
    case None
    then show ?thesis using assms(1) Some
      by (subst connect.simps) (simp add: attemptCalls_def)
  next
    case (Some r)
    then have "\<not> probe md" using assms(2) \<open>load (strategies ! i) = Some md\<close>
      by (simp add: fails_def)
    then show ?thesis using assms(1) Some \<open>load (strategies ! i) = Some md\<close>
      by (subst connect.simps) (simp add: attemptCalls_def)
  qed
qed

lemma connect_succeeds:
  assumes "i < length strategies" "load (strategies ! i) = Some md" "joinRoom md = Some r" "probe md"
  shows "connect strategies i s
       = (Inr (r, name (strategies ! i)),
          watchSockets (getRelaySockets md)
            (s\<lparr>log := log s @ [Load i, Join i], currentRoom := Some r, currentModule := Some md\<rparr>))"
  using assms by (subst connect.simps) (simp add: Let_def)

lemma not_fails:
  "\<not> fails strat \<longleftrightarrow> (\<exists>md r. load strat = Some md \<and> joinRoom md = Some r \<and> probe md)"
  by (auto simp: fails_def split: option.splits)

text \<open>The log of \<open>connect\<close> grows by the calls of the scan.\<close>

lemma connect_log:
  "log (snd (connect strategies i s)) = log s @ scanCalls i (drop i strategies)"
proof (induction "length strategies - i" arbitrary: i s)
  case 0
  then show ?case by (simp add: connect_exhausted)
next
  case (Suc n)
  then have i: "i < length strategies" by simp
  have d: "drop i strategies = strategies ! i # drop (Suc i) strategies"
    using i by (simp add: Cons_nth_drop_Suc)
  show ?case
  proof (cases "fails (strategies ! i)")
    case True
    have n: "n = length strategies - Suc i" using Suc.hyps(2) by simp
    show ?thesis
      using Suc.hyps(1) [OF n, of "s\<lparr>log := log s @ attemptCalls i (strategies ! i)\<rparr>"] True
      by (simp add: connect_fails [OF i True] d)
  next
    case False
    then obtain md r where m: "load (strategies ! i) = Some md" "joinRoom md = Some r" "probe md"
      by (auto simp: not_fails)
    show ?thesis using False m
      by (simp add: connect_succeeds [OF i m] d attemptCalls_def)
  qed
qed

lemma calls_connect: "calls s (snd (connect strategies i s)) = scanCalls i (drop i strategies)"
  by (simp add: calls_def connect_log)

text \<open>The result of \<open>connect\<close>.\<close>

lemma connect_all_fail:
  "list_all fails (drop i strategies) \<Longrightarrow> fst (connect strategies i s) = Inl AllFailed"
proof (induction "length strategies - i" arbitrary: i s)
  case 0
  then show ?case by (simp add: connect_exhausted)
next
  case (Suc n)
  then have i: "i < length strategies" by simp
  have d: "drop i strategies = strategies ! i # drop (Suc i) strategies"
    using i by (simp add: Cons_nth_drop_Suc)
  have f: "fails (strategies ! i)" "list_all fails (drop (Suc i) strategies)"
    using Suc.prems d by simp_all
  have n: "n = length strategies - Suc i" using Suc.hyps(2) by simp
  show ?case using Suc.hyps(1) [OF n f(2)] by (simp add: connect_fails [OF i f(1)])
qed


lemma connect_result_cases:
  "fst (connect strategies i s) = Inl AllFailed \<and> list_all fails (drop i strategies)
   \<or> (\<exists>k md r. i \<le> k \<and> k < length strategies \<and> list_all fails (take (k - i) (drop i strategies))
        \<and> load (strategies ! k) = Some md \<and> joinRoom md = Some r \<and> probe md
        \<and> fst (connect strategies i s) = Inr (r, name (strategies ! k)))"
proof (induction "length strategies - i" arbitrary: i s)
  case 0
  then show ?case by (simp add: connect_exhausted)
next
  case (Suc n)
  then have i: "i < length strategies" by simp
  have d: "drop i strategies = strategies ! i # drop (Suc i) strategies"
    using i by (simp add: Cons_nth_drop_Suc)
  show ?case
  proof (cases "fails (strategies ! i)")
    case True
    have n: "n = length strategies - Suc i" using Suc.hyps(2) by simp
    let ?s1 = "s\<lparr>log := log s @ attemptCalls i (strategies ! i)\<rparr>"
    have c: "connect strategies i s = connect strategies (Suc i) ?s1"
      by (rule connect_fails [OF i True])
    from Suc.hyps(1) [OF n, of ?s1]
    show ?thesis
    proof
      assume "fst (connect strategies (Suc i) ?s1) = Inl AllFailed
          \<and> list_all fails (drop (Suc i) strategies)"
      then show ?thesis using c d True by simp
    next
      assume "\<exists>k md r. Suc i \<le> k \<and> k < length strategies
          \<and> list_all fails (take (k - Suc i) (drop (Suc i) strategies))
          \<and> load (strategies ! k) = Some md \<and> joinRoom md = Some r \<and> probe md
          \<and> fst (connect strategies (Suc i) ?s1) = Inr (r, name (strategies ! k))"
      then obtain k md r where k: "Suc i \<le> k" "k < length strategies"
          "list_all fails (take (k - Suc i) (drop (Suc i) strategies))"
          "load (strategies ! k) = Some md" "joinRoom md = Some r" "probe md"
          "fst (connect strategies (Suc i) ?s1) = Inr (r, name (strategies ! k))" by blast
      have t: "k - i = Suc (k - Suc i)" using k(1) by simp
      have "list_all fails (take (k - i) (drop i strategies))"
        using k(3) True d t by simp
      moreover have "i \<le> k" using k(1) by simp
      ultimately have "i \<le> k \<and> k < length strategies
          \<and> list_all fails (take (k - i) (drop i strategies))
          \<and> load (strategies ! k) = Some md \<and> joinRoom md = Some r \<and> probe md
          \<and> fst (connect strategies i s) = Inr (r, name (strategies ! k))"
        using k c by simp
      then show ?thesis by blast
    qed
  next
    case False
    then obtain md r where m: "load (strategies ! i) = Some md" "joinRoom md = Some r" "probe md"
      by (auto simp: not_fails)
    have "fst (connect strategies i s) = Inr (r, name (strategies ! i))"
      by (simp add: connect_succeeds [OF i m])
    then show ?thesis using i m by (intro disjI2 exI [of _ i]) auto
  qed
qed


lemma loadsOf_append [simp]: "loadsOf (xs @ ys) = loadsOf xs @ loadsOf ys"
  by (induction xs rule: loadsOf.induct) simp_all

lemma joinsOf_append [simp]: "joinsOf (xs @ ys) = joinsOf xs @ joinsOf ys"
  by (induction xs rule: joinsOf.induct) simp_all

lemma loadsOf_attemptCalls [simp]: "loadsOf (attemptCalls i strat) = [i]"
  by (simp add: attemptCalls_def split: option.splits)




lemma scanCalls_join_leave:
  "scanCalls i xs = pre @ Join j # post \<Longrightarrow>
     i \<le> j \<and> j < i + length xs \<and> set (loadsOf pre) \<subseteq> {i .. j}
     \<and> (\<forall>md r. load (xs ! (j - i)) = Some md \<longrightarrow> joinRoom md = Some r \<longrightarrow> \<not> probe md
           \<longrightarrow> (\<exists>post'. post = Leave r # post'))"
proof (induction xs arbitrary: i pre)
  case Nil
  then show ?case by simp
next
  case (Cons strat rest)
  let ?tail = "if fails strat then scanCalls (Suc i) rest else []"
  have sc: "attemptCalls i strat @ ?tail = pre @ Join j # post" using Cons.prems by simp
  have later: "i \<le> j \<and> j < i + length (strat # rest) \<and> set (loadsOf (a @ pre')) \<subseteq> {i .. j}
     \<and> (\<forall>md r. load ((strat # rest) ! (j - i)) = Some md \<longrightarrow> joinRoom md = Some r \<longrightarrow> \<not> probe md
           \<longrightarrow> (\<exists>post'. post = Leave r # post'))"
    if "?tail = pre' @ Join j # post" "set (loadsOf a) \<subseteq> {i}" for pre' a
  proof -
    have f: "fails strat" "scanCalls (Suc i) rest = pre' @ Join j # post"
      using that(1) by (auto split: if_splits)
    from Cons.IH [OF f(2)]
    have ih: "Suc i \<le> j" "j < Suc i + length rest" "set (loadsOf pre') \<subseteq> {Suc i .. j}"
      "\<forall>md r. load (rest ! (j - Suc i)) = Some md \<longrightarrow> joinRoom md = Some r \<longrightarrow> \<not> probe md
           \<longrightarrow> (\<exists>post'. post = Leave r # post')" by simp_all
    have nth: "(strat # rest) ! (j - i) = rest ! (j - Suc i)" using ih(1) by (simp add: nth_Cons')
    show ?thesis using ih that(2) unfolding nth by auto
  qed
  show ?case
  proof (cases "load strat")
    case None
    then have "Load i # ?tail = pre @ Join j # post" using sc by (simp add: attemptCalls_def)
    then obtain pre' where p: "pre = Load i # pre'" "?tail = pre' @ Join j # post"
      by (cases pre) auto
    show ?thesis using later [OF p(2), of "[Load i]"] p(1) by simp
  next
    case (Some md)
    show ?thesis
    proof (cases "joinRoom md")
      case None
      then have e: "Load i # Join i # ?tail = pre @ Join j # post"
        using sc Some by (simp add: attemptCalls_def)
      show ?thesis
      proof (cases "pre = [Load i]")
        case True
        then show ?thesis using e Some None by simp
      next
        case False
        then obtain pre' where p: "pre = Load i # Join i # pre'" "?tail = pre' @ Join j # post"
          using e by (cases pre; cases "tl pre") auto
        show ?thesis using later [OF p(2), of "[Load i, Join i]"] p(1) by simp
      qed
    next
      case (Some r)
      note jr = this
      show ?thesis
      proof (cases "probe md")
        case True
        then have nf: "\<not> fails strat" using \<open>load strat = Some md\<close> jr by (simp add: fails_def)
        have e: "[Load i, Join i] = pre @ Join j # post"
          using sc \<open>load strat = Some md\<close> jr True nf by (simp add: attemptCalls_def)
        then have "pre = [Load i] \<and> j = i \<and> post = []"
          by (cases pre; cases "tl pre") auto
        then show ?thesis using \<open>load strat = Some md\<close> jr True by simp
      next
        case False
        then have e: "Load i # Join i # Leave r # ?tail = pre @ Join j # post"
          using sc \<open>load strat = Some md\<close> jr by (simp add: attemptCalls_def)
        show ?thesis
        proof (cases "pre = [Load i]")
          case True
          then show ?thesis using e \<open>load strat = Some md\<close> jr by auto
        next
          case False
          then obtain pre' where p: "pre = Load i # Join i # Leave r # pre'"
              "?tail = pre' @ Join j # post"
            using e by (cases pre; cases "tl pre"; cases "tl (tl pre)") auto
          show ?thesis using later [OF p(2), of "[Load i, Join i, Leave r]"] p(1) by simp
        qed
      qed
    qed
  qed
qed

section \<open>The example registries evaluated\<close>

lemma probe_moduleB: "\<not> probe moduleB"
  by (simp add: probe_def moduleB_def waitForRelayOpen_def onTimer_def someOpen_def
      readyStateOf_def cleanup_def)

lemma probe_moduleC: "probe moduleC"
  by (simp add: probe_def moduleC_def waitForRelayOpen_def onOpen_def someOpen_def
      readyStateOf_def cleanup_def)

lemma probe_moduleB': "probe moduleB'"
  by (simp add: probe_def moduleB'_def waitForRelayOpen_def onOpen_def someOpen_def
      readyStateOf_def cleanup_def)

lemma waitForRelayOpen_moduleB':
  "waitForRelayOpen (getRelaySockets moduleB') 5000 (relayReady moduleB') (relayEvents moduleB')
     = (True, 40)"
  by (simp add: moduleB'_def waitForRelayOpen_def onOpen_def someOpen_def
      readyStateOf_def cleanup_def)

lemma connect_registryABC:
  "connect registryABC 0 initial = (Inr (30, ''C''), sessionC)"
  by code_simp

lemma joinRoomWithFallback_registryABC:
  "joinRoomWithFallback registryABC = Inr (\<lparr>room = 30, strategy = ''C''\<rparr>, sessionC)"
  by (simp add: joinRoomWithFallback_def connect_registryABC)

lemma construct_registryABC: "construct registryABC = Inr runtimeC"
  by (simp add: construct_def joinRoomWithFallback_registryABC runtimeC_def)

section \<open>The claims about connect\<close>



text \<open>
  Claim C2. \<open>connect startIndex\<close> fails if and only if every candidate from \<open>startIndex\<close> to
  the end of the registry fails, and whenever it fails, it fails with the error \<open>AllFailed\<close>
  ("All connection strategies failed"). \<^verbatim>\<open>joinRoomWithFallback\<close> awaits \<open>connect()\<close>
  unguarded, so it rejects with the same error exactly when every candidate of the
  registry fails.
\<close>

theorem C2_connect_exhaustion:
  "(fst (connect strategies startIndex s) = Inl AllFailed
      \<longleftrightarrow> list_all fails (drop startIndex strategies))
   \<and> (isl (fst (connect strategies startIndex s))
      \<longleftrightarrow> fst (connect strategies startIndex s) = Inl AllFailed)
   \<and> (joinRoomWithFallback strategies = Inl AllFailed \<longleftrightarrow> list_all fails strategies)
   \<and> (isl (joinRoomWithFallback strategies) \<longleftrightarrow> list_all fails strategies)"
proof -
  have c: "fst (connect strategies i s') = Inl AllFailed \<longleftrightarrow> list_all fails (drop i strategies)"
    for i s'
  proof
    assume a: "fst (connect strategies i s') = Inl AllFailed"
    from connect_result_cases [of strategies i s'] a
    show "list_all fails (drop i strategies)" by auto
  next
    assume "list_all fails (drop i strategies)"
    then show "fst (connect strategies i s') = Inl AllFailed" by (rule connect_all_fail)
  qed
  have e: "isl (fst (connect strategies i s')) \<longleftrightarrow> fst (connect strategies i s') = Inl AllFailed"
    for i s'
    using connect_result_cases [of strategies i s'] by auto
  have j1: "joinRoomWithFallback strategies = Inl AllFailed
      \<longleftrightarrow> fst (connect strategies 0 initial) = Inl AllFailed"
    by (cases "connect strategies 0 initial")
       (auto simp: joinRoomWithFallback_def split: sum.splits)
  have j2: "isl (joinRoomWithFallback strategies) \<longleftrightarrow> isl (fst (connect strategies 0 initial))"
    by (cases "connect strategies 0 initial")
       (auto simp: joinRoomWithFallback_def split: sum.splits)
  show ?thesis using c [of startIndex s] e [of startIndex s] c [of 0 initial] e [of 0 initial] j1 j2
    by simp
qed

text \<open>C2 on the registry \<open>A\<close>, \<open>B\<close>, where both candidates fail, and on \<open>A\<close>, \<open>B\<close>, \<open>C\<close>,
  where \<open>C\<close> does not.\<close>

theorem C2_connect_exhaustion_witness:
  "fst (connect registryAB 0 initial) = Inl AllFailed
   \<and> list_all fails (drop 0 registryAB)
   \<and> joinRoomWithFallback registryAB = Inl AllFailed
   \<and> fst (connect registryABC 0 initial) \<noteq> Inl AllFailed
   \<and> \<not> list_all fails registryABC"
proof -
  have f: "list_all fails registryAB"
    using probe_moduleB by (simp add: fails_def registryAB_def moduleB_def)
  have g: "\<not> list_all fails registryABC"
    using probe_moduleC by (simp add: fails_def registryABC_def moduleC_def)
  from C2_connect_exhaustion [of registryAB 0 initial]
    C2_connect_exhaustion [of registryABC 0 initial] f g
  show ?thesis by simp
qed

text \<open>
  Claim C5. Whenever \<open>connect\<close> has called \<open>joinRoom\<close> on a candidate \<open>j\<close> that returned room
  \<open>r\<close> and whose health probe is unhealthy, the next recorded call after that \<open>joinRoom\<close> is
  \<open>r.leave()\<close>; up to the \<open>joinRoom\<close> it has loaded no candidate after \<open>j\<close>, so the rejected
  room is left before the next candidate is loaded or joined.
\<close>

theorem C5_rejected_room_left:
  assumes "calls s (snd (connect strategies startIndex s)) = pre @ Join j # post"
    "load (strategies ! j) = Some md" "joinRoom md = Some r" "\<not> probe md"
  shows "(\<exists>post'. post = Leave r # post') \<and> set (loadsOf pre) \<subseteq> {startIndex .. j}"
proof -
  have sc: "scanCalls startIndex (drop startIndex strategies) = pre @ Join j # post"
    using assms(1) by (simp add: calls_connect)
  from scanCalls_join_leave [OF sc]
  have a: "startIndex \<le> j" "j < startIndex + length (drop startIndex strategies)"
    "set (loadsOf pre) \<subseteq> {startIndex .. j}"
    "\<forall>md r. load (drop startIndex strategies ! (j - startIndex)) = Some md \<longrightarrow> joinRoom md = Some r
       \<longrightarrow> \<not> probe md \<longrightarrow> (\<exists>post'. post = Leave r # post')" by simp_all
  have "drop startIndex strategies ! (j - startIndex) = strategies ! j"
    using a(1,2) by simp
  then show ?thesis using a(3,4) assms(2,3,4) by simp
qed

text \<open>C5 on the registry \<open>A\<close>, \<open>B\<close>, \<open>C\<close>: room 20 of \<open>B\<close> is left before \<open>C\<close> is loaded.\<close>

theorem C5_rejected_room_left_witness:
  "calls initial (snd (connect registryABC 0 initial))
     = [Load 0, Load 1] @ Join 1 # [Leave 20, Load 2, Join 2]
   \<and> load (registryABC ! 1) = Some moduleB \<and> joinRoom moduleB = Some 20 \<and> \<not> probe moduleB
   \<and> (\<exists>post'. [Leave 20, Load 2, Join 2] = Leave 20 # post')
   \<and> set (loadsOf [Load 0, Load 1]) \<subseteq> {0 .. 1}"
proof -
  have c: "calls initial (snd (connect registryABC 0 initial))
     = [Load 0, Load 1] @ Join 1 # [Leave 20, Load 2, Join 2]"
    unfolding connect_registryABC by (simp add: calls_def sessionC_def initial_def)
  have l: "load (registryABC ! 1) = Some moduleB" by (simp add: registryABC_def)
  have j: "joinRoom moduleB = Some 20" by (simp add: moduleB_def)
  from C5_rejected_room_left [OF c l j probe_moduleB] c l j probe_moduleB
  show ?thesis by simp
qed

section \<open>Properties of the session's callbacks\<close>

lemma addEventListener_fields [simp]:
  "active (addEventListener ws ev s) = active s"
  "reconnectHandlers (addEventListener ws ev s) = reconnectHandlers s"
  "currentRoom (addEventListener ws ev s) = currentRoom s"
  "currentModule (addEventListener ws ev s) = currentModule s"
  by (simp_all add: addEventListener_def)

lemma removeEventListener_fields [simp]:
  "active (removeEventListener ws ev s) = active s"
  "reconnectHandlers (removeEventListener ws ev s) = reconnectHandlers s"
  "currentRoom (removeEventListener ws ev s) = currentRoom s"
  "currentModule (removeEventListener ws ev s) = currentModule s"
  "log (removeEventListener ws ev s) = log s"
  by (simp_all add: removeEventListener_def)

lemma watch_fold_fields:
  "active (fold (\<lambda>ws s'. addEventListener ws EvError (addEventListener ws EvClose s')) xs s) = active s
   \<and> reconnectHandlers (fold (\<lambda>ws s'. addEventListener ws EvError (addEventListener ws EvClose s')) xs s)
       = reconnectHandlers s
   \<and> currentRoom (fold (\<lambda>ws s'. addEventListener ws EvError (addEventListener ws EvClose s')) xs s)
       = currentRoom s
   \<and> currentModule (fold (\<lambda>ws s'. addEventListener ws EvError (addEventListener ws EvClose s')) xs s)
       = currentModule s"
  by (induction xs arbitrary: s) simp_all

lemma watchSockets_fields [simp]:
  "active (watchSockets sockets s) = active s"
  "reconnectHandlers (watchSockets sockets s) = reconnectHandlers s"
  "currentRoom (watchSockets sockets s) = currentRoom s"
  "currentModule (watchSockets sockets s) = currentModule s"
  by (simp_all add: watchSockets_def watch_fold_fields)

lemma unwatch_fold_fields:
  "active (fold (\<lambda>ws s'. removeEventListener ws EvError (removeEventListener ws EvClose s')) xs s)
       = active s
   \<and> reconnectHandlers (fold (\<lambda>ws s'. removeEventListener ws EvError (removeEventListener ws EvClose s')) xs s)
       = reconnectHandlers s
   \<and> currentRoom (fold (\<lambda>ws s'. removeEventListener ws EvError (removeEventListener ws EvClose s')) xs s)
       = currentRoom s
   \<and> log (fold (\<lambda>ws s'. removeEventListener ws EvError (removeEventListener ws EvClose s')) xs s)
       = log s"
  by (induction xs arbitrary: s) simp_all

lemma leave_fields:
  "active (leave s) = False" "reconnectHandlers (leave s) = []" "currentRoom (leave s) = currentRoom s"
  by (simp_all add: leave_def Let_def unwatch_fold_fields split: option.splits)

lemma log_leave:
  "log (leave s) = log s @ [case currentRoom s of None \<Rightarrow> Uncaught NoCurrentRoom | Some r \<Rightarrow> Leave r]"
  by (simp add: leave_def Let_def unwatch_fold_fields split: option.splits)


lemma connect_adopts:
  assumes "fst (connect strategies i s) = Inr (r, nm)"
  shows "currentRoom (snd (connect strategies i s)) = Some r
     \<and> (\<exists>md. currentModule (snd (connect strategies i s)) = Some md \<and> joinRoom md = Some r)"
  using assms
proof (induction "length strategies - i" arbitrary: i s)
  case 0
  then show ?case by (simp add: connect_exhausted)
next
  case (Suc n)
  then have i: "i < length strategies" by simp
  show ?case
  proof (cases "fails (strategies ! i)")
    case True
    have n: "n = length strategies - Suc i" using Suc.hyps(2) by simp
    show ?thesis
      using Suc.hyps(1) [OF n, of "s\<lparr>log := log s @ attemptCalls i (strategies ! i)\<rparr>"] Suc.prems
      by (simp add: connect_fails [OF i True])
  next
    case False
    then obtain md r' where m: "load (strategies ! i) = Some md" "joinRoom md = Some r'" "probe md"
      by (auto simp: not_fails)
    show ?thesis using Suc.prems m(2) by (simp add: connect_succeeds [OF i m])
  qed
qed

lemma calls_self [simp]: "calls s s = []"
  by (simp add: calls_def)



lemma invoked_Cons:
  "invoked (fn # rest) = (if returns fn then fn # invoked rest else [fn])"
  by (simp add: invoked_def)



lemma loadsOf_forEachHandler [simp]: "loadsOf (forEachHandler hs r nm) = []"
  by (induction hs) simp_all

lemma filter_notify_forEachHandler [simp]:
  "filter isNotify (forEachHandler hs r nm) = map (\<lambda>fn. Notify fn r nm) (invoked hs)"
  by (induction hs) (simp_all add: invoked_Cons, simp add: invoked_def)

lemma filter_notify_attemptCalls [simp]: "filter isNotify (attemptCalls i strat) = []"
  by (simp add: attemptCalls_def split: option.splits)

lemma filter_notify_scanCalls [simp]: "filter isNotify (scanCalls i xs) = []"
  by (induction xs arbitrary: i) simp_all

section \<open>What a settled connect leaves behind\<close>


lemma afterConnect_fields [simp]:
  "currentRoom (afterConnect (res, s)) = currentRoom s"
  "currentModule (afterConnect (res, s)) = currentModule s"
  "active (afterConnect (res, s)) = active s"
  "listeners (afterConnect (res, s)) = listeners s"
  "reconnectHandlers (afterConnect (res, s)) = reconnectHandlers s"
  by (simp_all add: afterConnect_def split: sum.splits prod.splits)

section \<open>Scans in flight\<close>

lemma startDisconnect_inactive: "\<not> active (sess rt) \<Longrightarrow> startDisconnect strategies rt = rt"
  by (simp add: startDisconnect_def)

lemma startDisconnect_active:
  assumes "active (sess rt)" "strategies \<noteq> []"
  shows "startDisconnect strategies rt
       = rt\<lparr>sess := (sess rt)\<lparr>log := log (sess rt) @ [Load 0]\<rparr>,
             inflight := inflight rt @ [AwaitLoad 0 (strategies ! 0)]\<rparr>"
  using assms by (simp add: startDisconnect_def enter_def)

lemma step_socket_inactive:
  "\<not> active (sess rt) \<Longrightarrow> step strategies (SocketEvent ws ev) rt = rt"
  by (simp add: startDisconnect_inactive)

lemma active_enter: "active (snd (enter strategies i s)) = active s"
  by (simp add: enter_def)

lemma active_resume: "active (snd (resume strategies p s)) = active s"
  by (cases p) (simp_all add: enter_def Let_def split: option.splits)

lemma step_keeps_inactive:
  "\<not> active (sess rt) \<Longrightarrow> \<not> active (sess (step strategies e rt))"
proof (cases e)
  case (SocketEvent ws ev)
  assume "\<not> active (sess rt)"
  then show ?thesis using SocketEvent by (simp add: startDisconnect_inactive)
next
  case (Settle n)
  assume a: "\<not> active (sess rt)"
  show ?thesis
  proof (cases "n < length (inflight rt)")
    case True
    obtain pr s' where r: "resume strategies (inflight rt ! n) (sess rt) = (pr, s')"
      by (cases "resume strategies (inflight rt ! n) (sess rt)")
    have "active s' = active (sess rt)"
      using active_resume [of strategies "inflight rt ! n" "sess rt"] r by simp
    then show ?thesis using a True Settle r by (cases pr) simp_all
  next
    case False
    then show ?thesis using a Settle by simp
  qed
next
  case (OnReconnect h)
  assume "\<not> active (sess rt)"
  then show ?thesis using OnReconnect by (simp add: onReconnect_def)
next
  case LeaveCall
  then show ?thesis by (simp add: leave_fields)
qed

lemma steps_keep_inactive:
  "\<not> active (sess rt) \<Longrightarrow> \<not> active (sess (steps strategies es rt))"
  by (induction es arbitrary: rt) (simp_all add: step_keeps_inactive del: step.simps)

text \<open>
  Claim C7. Once \<open>leave()\<close> has been called, \<open>active\<close> is false and stays false whatever
  happens next (\<open>es\<close> is any sequence of later events: socket events, scans in flight that
  resume, calls of the methods), and every close or error event that is dispatched at any
  later point, on whatever socket, leaves everything as it is: \<open>handleDisconnect\<close> returns
  at its guard, no scan is started (no \<open>load\<close> call, no new scan in flight) and no handler
  is called.
\<close>

theorem C7_no_reconnect_after_leave:
  "\<not> active (sess (steps strategies es (step strategies LeaveCall rt)))
   \<and> step strategies (SocketEvent ws ev) (steps strategies es (step strategies LeaveCall rt))
       = steps strategies es (step strategies LeaveCall rt)"
proof -
  have "\<not> active (sess (step strategies LeaveCall rt))" by (simp add: leave_fields)
  then have a: "\<not> active (sess (steps strategies es (step strategies LeaveCall rt)))"
    by (rule steps_keep_inactive)
  then show ?thesis using step_socket_inactive by blast
qed

text \<open>C7 on the session connected over \<open>C\<close>: after \<open>leave()\<close>, an error event on socket
  2 and a late \<open>onReconnect\<close>, a close event on socket 2 changes nothing, and the only call
  made since the connection is the \<open>leave\<close> of room 30.\<close>

theorem C7_no_reconnect_after_leave_witness:
  "\<not> active (sess (steps registryAB'C [SocketEvent 2 EvError, OnReconnect (Returns 7)] (step registryAB'C LeaveCall runtimeC)))
   \<and> step registryAB'C (SocketEvent 2 EvClose)
        (steps registryAB'C [SocketEvent 2 EvError, OnReconnect (Returns 7)] (step registryAB'C LeaveCall runtimeC))
     = steps registryAB'C [SocketEvent 2 EvError, OnReconnect (Returns 7)] (step registryAB'C LeaveCall runtimeC)
   \<and> calls sessionC (sess (steps registryAB'C [SocketEvent 2 EvError, OnReconnect (Returns 7)]
        (step registryAB'C LeaveCall runtimeC))) = [Leave 30]"
proof -
  have c: "calls sessionC (sess (steps registryAB'C [SocketEvent 2 EvError, OnReconnect (Returns 7)]
        (step registryAB'C LeaveCall runtimeC))) = [Leave 30]"
    by (simp add: runtimeC_def calls_def leave_def sessionC_def moduleC_def removeEventListener_def
        onReconnect_def)
  from C7_no_reconnect_after_leave
    [of registryAB'C "[SocketEvent 2 EvError, OnReconnect (Returns 7)]" runtimeC 2 EvClose] c
  show ?thesis by blast
qed

text \<open>Each event on a watched socket of an active session adds a scan.\<close>

lemma steps_sockets_active:
  assumes "active (sess rt)" "strategies \<noteq> []"
    "set evs \<subseteq> set (listeners (sess rt))"
  shows "steps strategies (map (\<lambda>(ws, ev). SocketEvent ws ev) evs) rt
       = rt\<lparr>sess := (sess rt)\<lparr>log := log (sess rt) @ replicate (length evs) (Load 0)\<rparr>,
             inflight := inflight rt @ replicate (length evs) (AwaitLoad 0 (strategies ! 0))\<rparr>"
  using assms(1,3)
proof (induction evs arbitrary: rt)
  case Nil
  then show ?case by simp
next
  case (Cons p evs)
  obtain ws ev where p: "p = (ws, ev)" by (cases p)
  let ?rt1 = "rt\<lparr>sess := (sess rt)\<lparr>log := log (sess rt) @ [Load 0]\<rparr>,
             inflight := inflight rt @ [AwaitLoad 0 (strategies ! 0)]\<rparr>"
  have s1: "step strategies (SocketEvent ws ev) rt = ?rt1"
    using Cons.prems p by (simp add: startDisconnect_active [OF _ assms(2)])
  have a1: "active (sess ?rt1)" using Cons.prems(1) by simp
  have l1: "set evs \<subseteq> set (listeners (sess ?rt1))"
    using Cons.prems(2) by simp
  show ?case
    using Cons.IH [OF a1 l1] s1 p
    by simp
qed

lemma facade_startDisconnect: "facade (startDisconnect strategies rt) = facade rt"
  by (simp add: startDisconnect_def split: prod.splits progress.splits)

lemma facade_step: "facade (step strategies e rt) = facade rt"
  by (cases e) (simp_all add: facade_startDisconnect split: prod.splits progress.splits)

lemma facade_steps: "facade (steps strategies es rt) = facade rt"
  by (induction es arbitrary: rt) (simp_all add: facade_step del: step.simps)

lemma step_probe_healthy:
  assumes "n < length (inflight rt)" "inflight rt ! n = AwaitProbe i strat md r" "probe md"
  shows "sess (step strategies (Settle n) rt)
       = afterConnect (Inr (r, name strat),
           watchSockets (getRelaySockets md)
             ((sess rt)\<lparr>currentRoom := Some r, currentModule := Some md\<rparr>))"
  using assms by simp

lemma construct_snapshot:
  assumes "construct strategies = Inr rt"
  shows "fst (connect strategies 0 initial) = Inr (room (facade rt), strategy (facade rt))
     \<and> currentRoom (sess rt) = Some (room (facade rt))"
proof -
  obtain res s where c: "connect strategies 0 initial = (res, s)"
    by (cases "connect strategies 0 initial")
  then obtain r nm where r: "res = Inr (r, nm)"
    using assms by (cases res) (auto simp: construct_def joinRoomWithFallback_def)
  have rt: "rt = \<lparr>sess = s, inflight = [], facade = \<lparr>room = r, strategy = nm\<rparr>\<rparr>"
    using assms c r by (simp add: construct_def joinRoomWithFallback_def)
  have "currentRoom s = Some r"
    using connect_adopts [of strategies 0 initial r nm] c r by simp
  then show ?thesis using c r rt by simp
qed

text \<open>
  Claim C8. The \<open>room\<close> and \<open>strategy\<close> properties of the object that
  \<^verbatim>\<open>joinRoomWithFallback\<close> returns are the room and the name of the initial connection,
  and no later event (socket events, scans that resume, reconnections that succeed, calls
  of the methods) ever changes them. A reconnection that succeeds (a scan suspended at the
  probe of module \<open>md\<close> with room \<open>rNew\<close> resumes, the probe being healthy) makes \<open>rNew\<close> the
  current room and \<open>md\<close> the current module of the closure and leaves the returned object
  as it was; a \<open>leave()\<close> after it calls \<open>leave\<close> on \<open>rNew\<close>, the most recently connected room,
  and on nothing else.
\<close>

theorem C8_reconnect_keeps_public_snapshot:
  "(construct registry = Inr rtInit \<longrightarrow>
      fst (connect registry 0 initial) = Inr (room (facade rtInit), strategy (facade rtInit))
      \<and> currentRoom (sess rtInit) = Some (room (facade rtInit)))
   \<and> facade (steps strategies es rt) = facade rt
   \<and> (n < length (inflight rt) \<and> inflight rt ! n = AwaitProbe i strat md rNew \<and> probe md
      \<longrightarrow> currentRoom (sess (step strategies (Settle n) rt)) = Some rNew
        \<and> currentModule (sess (step strategies (Settle n) rt)) = Some md
        \<and> facade (step strategies (Settle n) rt) = facade rt
        \<and> calls (sess (step strategies (Settle n) rt))
             (sess (step strategies LeaveCall (step strategies (Settle n) rt))) = [Leave rNew])"
proof (intro conjI impI)
  assume "construct registry = Inr rtInit"
  then have c: "fst (connect registry 0 initial) = Inr (room (facade rtInit), strategy (facade rtInit))
     \<and> currentRoom (sess rtInit) = Some (room (facade rtInit))"
    by (rule construct_snapshot)
  show "fst (connect registry 0 initial) = Inr (room (facade rtInit), strategy (facade rtInit))"
    using c by simp
  show "currentRoom (sess rtInit) = Some (room (facade rtInit))" using c by simp
next
  show "facade (steps strategies es rt) = facade rt" by (rule facade_steps)
next
  assume a: "n < length (inflight rt) \<and> inflight rt ! n = AwaitProbe i strat md rNew \<and> probe md"
  let ?rt' = "step strategies (Settle n) rt"
  have s: "sess ?rt' = afterConnect (Inr (rNew, name strat),
           watchSockets (getRelaySockets md)
             ((sess rt)\<lparr>currentRoom := Some rNew, currentModule := Some md\<rparr>))"
    using a by (intro step_probe_healthy) simp_all
  show cr: "currentRoom (sess ?rt') = Some rNew" unfolding s by simp
  show "currentModule (sess ?rt') = Some md" unfolding s by simp
  show "facade ?rt' = facade rt" by (rule facade_step)
  have "log (leave (sess ?rt')) = log (sess ?rt') @ [Leave rNew]"
    using cr by (simp add: log_leave)
  then show "calls (sess ?rt') (sess (step strategies LeaveCall ?rt')) = [Leave rNew]"
    by (simp add: calls_def)
qed

text \<open>C8 on the session that was connected over \<open>C\<close> (room 30) and is reconnecting over
  \<open>B\<close>: the returned object shows room 30 and \<open>C\<close>; after the reconnection and \<open>leave()\<close> it
  still does, the current room is 21, and \<open>leave()\<close> has left room 21.\<close>

theorem C8_reconnect_keeps_public_snapshot_witness:
  "construct registryABC = Inr runtimeC
   \<and> fst (connect registryABC 0 initial) = Inr (30, ''C'')
   \<and> currentRoom (sess runtimeC) = Some 30
   \<and> facade (steps registryAB'C [Settle 0, LeaveCall] runtimeProbing) = \<lparr>room = 30, strategy = ''C''\<rparr>
   \<and> (0::nat) < length (inflight runtimeProbing)
   \<and> inflight runtimeProbing ! 0 = AwaitProbe 1 \<lparr>name = ''B'', load = Some moduleB'\<rparr> moduleB' 21
   \<and> probe moduleB'
   \<and> currentRoom (sess (step registryAB'C (Settle 0) runtimeProbing)) = Some 21
   \<and> currentModule (sess (step registryAB'C (Settle 0) runtimeProbing)) = Some moduleB'
   \<and> calls (sess (step registryAB'C (Settle 0) runtimeProbing))
        (sess (step registryAB'C LeaveCall (step registryAB'C (Settle 0) runtimeProbing)))
      = [Leave 21]"
proof -
  have f: "facade runtimeProbing = \<lparr>room = 30, strategy = ''C''\<rparr>" by (simp add: runtimeProbing_def)
  have g: "room (facade runtimeC) = 30" "strategy (facade runtimeC) = ''C''"
    by (simp_all add: runtimeC_def)
  have h: "(0::nat) < length (inflight runtimeProbing)
     \<and> inflight runtimeProbing ! 0 = AwaitProbe 1 \<lparr>name = ''B'', load = Some moduleB'\<rparr> moduleB' 21
     \<and> probe moduleB'"
    using probe_moduleB' by (simp add: runtimeProbing_def)
  note c8 = C8_reconnect_keeps_public_snapshot
    [where registry = registryABC and rtInit = runtimeC and strategies = registryAB'C
       and es = "[Settle 0, LeaveCall]" and rt = runtimeProbing and n = 0 and i = 1
       and strat = "\<lparr>name = ''B'', load = Some moduleB'\<rparr>" and md = moduleB' and rNew = 21]
  show ?thesis using c8 [unfolded f g] h construct_registryABC by blast
qed

lemma runtimeProbing_reached:
  "steps registryAB'C [SocketEvent 2 EvClose, Settle 0, Settle 0] runtimeC = runtimeProbing"
  by (simp add: runtimeC_def runtimeProbing_def sessionC_def registryAB'C_def startDisconnect_def
      enter_def moduleB'_def)

text \<open>
  Claim C9, as the code has it. \<open>handleDisconnect\<close> keeps no in-flight flag: every close or
  error event dispatched on a watched socket of an active session starts a scan of its own
  at once, by a \<open>load\<close> call on the first candidate of a non-empty registry. After the
  events \<open>evs\<close>, delivered before any scan has resumed, there are as many more scans in
  flight as there were events.
\<close>

theorem C9_each_event_starts_a_scan:
  assumes "active (sess rt)" "strategies \<noteq> []" "set evs \<subseteq> set (listeners (sess rt))"
  shows "inflight (steps strategies (map (\<lambda>(ws, ev). SocketEvent ws ev) evs) rt)
       = inflight rt @ replicate (length evs) (AwaitLoad 0 (strategies ! 0))
     \<and> calls (sess rt) (sess (steps strategies (map (\<lambda>(ws, ev). SocketEvent ws ev) evs) rt))
       = replicate (length evs) (Load 0)"
  by (simp add: steps_sockets_active [OF assms] calls_def)

text \<open>C9 as amended, on the session connected over \<open>C\<close>: the error and the close event of
  socket 2 start two scans.\<close>

theorem C9_each_event_starts_a_scan_witness:
  "active (sess runtimeC) \<and> registryAB'C \<noteq> []
   \<and> set [(2, EvError), (2, EvClose)] \<subseteq> set (listeners (sess runtimeC))
   \<and> inflight (steps registryAB'C [SocketEvent 2 EvError, SocketEvent 2 EvClose] runtimeC)
     = [AwaitLoad 0 \<lparr>name = ''A'', load = None\<rparr>, AwaitLoad 0 \<lparr>name = ''A'', load = None\<rparr>]
   \<and> calls (sess runtimeC)
       (sess (steps registryAB'C [SocketEvent 2 EvError, SocketEvent 2 EvClose] runtimeC))
     = [Load 0, Load 0]"
proof -
  have a: "active (sess runtimeC)" by (simp add: runtimeC_def sessionC_def)
  have n: "registryAB'C \<noteq> []" by (simp add: registryAB'C_def)
  have l: "set [(2, EvError), (2, EvClose)] \<subseteq> set (listeners (sess runtimeC))"
    by (simp add: runtimeC_def sessionC_def)
  have m: "map (\<lambda>(ws, ev). SocketEvent ws ev) [(2, EvError), (2, EvClose)]
      = [SocketEvent 2 EvError, SocketEvent 2 EvClose]" by simp
  have i: "inflight runtimeC = []" by (simp add: runtimeC_def)
  have r: "registryAB'C ! 0 = \<lparr>name = ''A'', load = None\<rparr>" by (simp add: registryAB'C_def)
  have p: "[] @ replicate (length [(2::nat, EvError), (2, EvClose)]) (AwaitLoad 0 \<lparr>name = ''A'', load = None\<rparr>)
      = [AwaitLoad 0 \<lparr>name = ''A'', load = None\<rparr>, AwaitLoad 0 \<lparr>name = ''A'', load = None\<rparr>]"
    by simp
  have q: "replicate (length [(2::nat, EvError), (2, EvClose)]) (Load 0) = [Load 0, Load 0]"
    by simp
  note c9 = C9_each_event_starts_a_scan [OF a n l]
  show ?thesis using c9 [unfolded m i r p q] a n l by blast
qed

text \<open>
  Claim C9, as stated: at most one reconnection attempt runs at a time. The session is
  connected over \<open>C\<close>. The error event of socket 2 starts a scan, which sees \<open>A\<close> fail to
  load, loads \<open>B\<close>, joins room 21 and waits for the probe of \<open>B\<close>; then the close event of
  socket 2 arrives and starts a second scan at candidate 0 while the first is still in
  flight.
\<close>

theorem C9_single_reconnect_counterexample:
  "inflight (steps registryAB'C
       [SocketEvent 2 EvError, Settle 0, Settle 0, SocketEvent 2 EvClose] runtimeC)
     = [AwaitProbe 1 \<lparr>name = ''B'', load = Some moduleB'\<rparr> moduleB' 21,
        AwaitLoad 0 \<lparr>name = ''A'', load = None\<rparr>]
   \<and> \<not> length (inflight (steps registryAB'C
       [SocketEvent 2 EvError, Settle 0, Settle 0, SocketEvent 2 EvClose] runtimeC)) \<le> 1
   \<and> calls sessionC (sess (steps registryAB'C
       [SocketEvent 2 EvError, Settle 0, Settle 0, SocketEvent 2 EvClose] runtimeC))
     = [Load 0, Load 1, Join 1, Load 0]"
  by (simp add: runtimeC_def sessionC_def registryAB'C_def startDisconnect_def enter_def calls_def
      moduleB'_def)

text \<open>
  Claim C10 at a failing input. The session is connected over \<open>C\<close>. Socket 2 closes and
  \<open>handleDisconnect\<close> starts a scan: \<open>A\<close> fails to load, \<open>B\<close> loads and joins room 21, and the
  scan waits for the probe of \<open>B\<close>. Meanwhile the owner calls \<open>leave()\<close> and then
  \<open>onReconnect\<close> with handler 7. Socket 3 opens and the scan resumes. \<open>handleDisconnect\<close>
  does not look at \<open>active\<close> again after its \<^verbatim>\<open>await\<close>: handler 7 is called with room 21
  although the session was torn down, and the listeners on socket 3 are attached after
  the teardown.
\<close>

theorem C10_handler_runs_after_leave:
  "active (sess (steps registryAB'C
       [SocketEvent 2 EvClose, Settle 0, Settle 0, LeaveCall, OnReconnect (Returns 7), Settle 0] runtimeC))
     = False
   \<and> calls sessionC (sess (steps registryAB'C
       [SocketEvent 2 EvClose, Settle 0, Settle 0, LeaveCall, OnReconnect (Returns 7), Settle 0] runtimeC))
     = [Load 0, Load 1, Join 1, Leave 30, Notify (Returns 7) 21 ''B'']
   \<and> listeners (sess (steps registryAB'C
       [SocketEvent 2 EvClose, Settle 0, Settle 0, LeaveCall, OnReconnect (Returns 7), Settle 0] runtimeC))
     = [(3, EvClose), (3, EvError)]"
  by (simp add: runtimeC_def sessionC_def registryAB'C_def startDisconnect_def enter_def calls_def
      leave_def moduleC_def moduleB'_def removeEventListener_def onReconnect_def probe_moduleB'
      [unfolded moduleB'_def] watchSockets_def addEventListener_def afterConnect_def)

text \<open>What does hold of C10: \<open>leave()\<close> empties the handler list, \<open>onReconnect\<close> is total, and
  a scan that settles while the list is empty calls no handler.\<close>

lemma leave_discards_handlers:
  "reconnectHandlers (sess (step strategies LeaveCall rt)) = []"
  by (simp add: leave_fields)

text \<open>
  Claim C6 at a failing input. The session is connected over \<open>C\<close> and watches socket 2.
  Socket 2 closes when \<open>B\<close> has come back: the reconnection, run with nothing in between,
  adopts \<open>B\<close>, whose only socket is 3, and attaches the listeners to socket 3, but nothing
  detaches those of socket 2, which \<open>C\<close> owned. The listeners of two strategies are
  attached at once, and \<open>leave()\<close>, which detaches from the sockets of the current module
  only, leaves them on socket 2.
\<close>

theorem C6_listeners_stay_on_old_sockets:
  "listeners (socketEvent registryAB'C 2 EvClose sessionC)
     = [(2, EvClose), (2, EvError), (3, EvClose), (3, EvError)]
   \<and> currentModule (socketEvent registryAB'C 2 EvClose sessionC) = Some moduleB'
   \<and> getRelaySockets moduleB' = Some [3]
   \<and> listeners (leave (socketEvent registryAB'C 2 EvClose sessionC))
     = [(2, EvClose), (2, EvError)]"
proof -
  have c: "connect registryAB'C 0 sessionC
     = (Inr (21, ''B''),
        sessionC\<lparr>currentRoom := Some 21, currentModule := Some moduleB',
                 listeners := [(2, EvClose), (2, EvError), (3, EvClose), (3, EvError)],
                 log := log sessionC @ [Load 0, Load 1, Join 1]\<rparr>)"
    by code_simp
  have s: "socketEvent registryAB'C 2 EvClose sessionC
     = sessionC\<lparr>currentRoom := Some 21, currentModule := Some moduleB',
                listeners := [(2, EvClose), (2, EvError), (3, EvClose), (3, EvError)],
                log := log sessionC @ [Load 0, Load 1, Join 1]\<rparr>"
    by (simp add: socketEvent_def handleDisconnect_def c afterConnect_def) (simp add: sessionC_def)
  show ?thesis unfolding s
    by (simp add: leave_def moduleB'_def removeEventListener_def)
qed

text \<open>The pairing that the code does keep: what \<^verbatim>\<open>joinRoomWithFallback\<close> attaches,
  \<open>leave()\<close> detaches when no reconnection came in between.\<close>

lemma leave_detaches_initial_listeners:
  "listeners sessionC = [(2, EvClose), (2, EvError)] \<and> listeners (leave sessionC) = []"
  by (simp add: sessionC_def leave_def moduleC_def removeEventListener_def)

text \<open>What the code does with the listeners: adopting a module attaches to its sockets
  and detaches nothing; \<open>leave()\<close> detaches from the sockets of the current module.\<close>

lemma listeners_addEventListener:
  "set (listeners (addEventListener ws ev s)) = insert (ws, ev) (set (listeners s))"
  by (auto simp: addEventListener_def)

lemma listeners_watch_fold:
  "set (listeners (fold (\<lambda>ws s'. addEventListener ws EvError (addEventListener ws EvClose s')) vs s))
     = set (listeners s) \<union> set vs \<times> {EvClose, EvError}"
  by (induction vs arbitrary: s) (auto simp: listeners_addEventListener)

lemma listeners_watchSockets:
  "set (listeners (watchSockets sockets s))
     = set (listeners s) \<union> (case sockets of None \<Rightarrow> {} | Some vs \<Rightarrow> set vs \<times> {EvClose, EvError})"
  by (cases sockets) (simp_all add: watchSockets_def listeners_watch_fold)

lemma listeners_unwatch_fold:
  "set (listeners (fold (\<lambda>ws s'. removeEventListener ws EvError (removeEventListener ws EvClose s')) vs s))
     = set (listeners s) - set vs \<times> {EvClose, EvError}"
  by (induction vs arbitrary: s) (auto simp: removeEventListener_def)

lemma listeners_leave:
  "set (listeners (leave s))
     = set (listeners s)
       - (case currentModule s of
            None \<Rightarrow> {}
          | Some md \<Rightarrow> (case getRelaySockets md of None \<Rightarrow> {} | Some vs \<Rightarrow> set vs \<times> {EvClose, EvError}))"
  by (simp add: leave_def Let_def listeners_unwatch_fold split: option.splits)

lemma connect_keeps_listeners:
  "set (listeners s) \<subseteq> set (listeners (snd (connect strategies i s)))"
proof (induction "length strategies - i" arbitrary: i s)
  case 0
  then show ?case by (simp add: connect_exhausted)
next
  case (Suc n)
  then have i: "i < length strategies" by simp
  show ?case
  proof (cases "fails (strategies ! i)")
    case True
    have n: "n = length strategies - Suc i" using Suc.hyps(2) by simp
    show ?thesis
      using Suc.hyps(1) [OF n, of "s\<lparr>log := log s @ attemptCalls i (strategies ! i)\<rparr>"]
      by (simp add: connect_fails [OF i True])
  next
    case False
    then obtain md r where m: "load (strategies ! i) = Some md" "joinRoom md = Some r" "probe md"
      by (auto simp: not_fails)
    show ?thesis by (auto simp: connect_succeeds [OF i m] listeners_watchSockets)
  qed
qed

section \<open>A scan that nothing interrupts\<close>





section \<open>Reconnection and the handlers\<close>







end
